theory Spec2Isabelle
  imports Main
begin

section \<open>JavaScript values and objects\<close>

text \<open>
  Values that travel through the router as page properties and as visit data.  A plain
  object is the list of its own enumerable entries in \<^verbatim>\<open>Object.entries\<close> order (keys
  distinct): the keys that are array indices come first, in ascending order, then the other
  keys in the order in which they were added.  Numbers are integers; a \<^verbatim>\<open>Date\<close> carries its
  ISO string, a \<^verbatim>\<open>File\<close> its name.
  A \<^verbatim>\<open>File\<close> is also a \<^verbatim>\<open>Blob\<close> for every \<^verbatim>\<open>instanceof Blob\<close> test.  A \<^verbatim>\<open>FileList\<close>
  is the list of its file names, a \<^verbatim>\<open>FormData\<close> the list of its appended entries.
\<close>

datatype jsvalue =
    JUndefined
  | JNull
  | JBool bool
  | JNum int
  | JStr string
  | JArr "jsvalue list"
  | JObj "(string \<times> jsvalue) list"
  | JDate string
  | JBlob
  | JFile string
  | JFileList "string list"
  | JFormData "(string \<times> jsvalue) list"

type_synonym properties = "(string \<times> jsvalue) list"

text \<open>\<^verbatim>\<open>if (value)\<close>: the falsy values are undefined, null, false, 0 and the empty string.\<close>

fun truthy :: "jsvalue \<Rightarrow> bool" where
  "truthy JUndefined = False"
| "truthy JNull = False"
| "truthy (JBool b) = b"
| "truthy (JNum n) = (n \<noteq> 0)"
| "truthy (JStr s) = (s \<noteq> [])"
| "truthy _ = True"

definition startsWith :: "string \<Rightarrow> string \<Rightarrow> bool" where
  "startsWith s p = (take (length p) s = p)"

text \<open>Reading a key of an object: \<open>None\<close> is JavaScript's \<^verbatim>\<open>undefined\<close> for a missing key.\<close>

fun lookup :: "(string \<times> 'v) list \<Rightarrow> string \<Rightarrow> 'v option" where
  "lookup [] k = None"
| "lookup ((k', v) # es) k = (if k' = k then Some v else lookup es k)"

text \<open>
  A key is an array index when it is the decimal numeral, without a leading zero, of a
  number below \<open>2\<^sup>3\<^sup>2 - 1\<close>.
\<close>

definition isDigit :: "char \<Rightarrow> bool" where
  "isDigit c = (c \<in> set ''0123456789'')"

definition readDigits :: "string \<Rightarrow> int" where
  "readDigits str = foldl (\<lambda>n c. 10 * n + (of_char c - 48)) 0 str"

definition arrayIndex :: "string \<Rightarrow> int option" where
  "arrayIndex key =
     (if key \<noteq> [] \<and> list_all isDigit key \<and> (if hd key = CHR ''0'' then key = ''0'' else True)
         \<and> readDigits key < 4294967295
      then Some (readDigits key) else None)"

text \<open>
  \<^verbatim>\<open>{ ...object, [key]: value }\<close> and \<^verbatim>\<open>object[key] = value\<close>: an existing key keeps its
  position and takes the new value.  A new key that is an array index goes behind the
  smaller array indices and before everything else; any other new key goes last.
\<close>

fun replaceEntry :: "string \<Rightarrow> 'v \<Rightarrow> (string \<times> 'v) list \<Rightarrow> (string \<times> 'v) list" where
  "replaceEntry k v [] = []"
| "replaceEntry k v ((k', v') # es) =
     (if k' = k then (k, v) # es else (k', v') # replaceEntry k v es)"

fun insertEntry :: "string \<Rightarrow> 'v \<Rightarrow> (string \<times> 'v) list \<Rightarrow> (string \<times> 'v) list" where
  "insertEntry k v [] = [(k, v)]"
| "insertEntry k v ((k', v') # es) =
     (case arrayIndex k of
        None \<Rightarrow> (k', v') # insertEntry k v es
      | Some n \<Rightarrow>
          (case arrayIndex k' of
             None \<Rightarrow> (k, v) # (k', v') # es
           | Some n' \<Rightarrow> if n < n' then (k, v) # (k', v') # es else (k', v') # insertEntry k v es))"

definition setEntry :: "string \<Rightarrow> 'v \<Rightarrow> (string \<times> 'v) list \<Rightarrow> (string \<times> 'v) list" where
  "setEntry k v es = (if k \<in> fst ` set es then replaceEntry k v es else insertEntry k v es)"

definition fromEntries :: "(string \<times> 'v) list \<Rightarrow> (string \<times> 'v) list" where
  "fromEntries es = foldl (\<lambda>acc (k, v). setEntry k v acc) [] es"

text \<open>\<^verbatim>\<open>{ ...a, ...b }\<close>\<close>

definition spread :: "(string \<times> 'v) list \<Rightarrow> (string \<times> 'v) list \<Rightarrow> (string \<times> 'v) list" where
  "spread a b = foldl (\<lambda>acc (k, v). setEntry k v acc) a b"

definition getKeys :: "(string \<times> 'v) list \<Rightarrow> string list" where
  "getKeys obj = map fst obj"

text \<open>lodash \<^verbatim>\<open>uniq\<close>: the first occurrence of every element, in order.\<close>

definition uniq :: "'a list \<Rightarrow> 'a list" where
  "uniq xs = foldl (\<lambda>acc x. if x \<in> set acc then acc else acc @ [x]) [] xs"

text \<open>
  Decimal rendering of array indices (\<^verbatim>\<open>index.toString()\<close>) and of numbers.  A number is
  rendered for the safe integers, where JavaScript prints every digit; beyond them it rounds
  or uses the exponent form, which is not modelled (\<open>None\<close>).
\<close>

definition digit :: "nat \<Rightarrow> char" where
  "digit n = char_of (48 + n)"

function showNat :: "nat \<Rightarrow> string" where
  "showNat n = (if n < 10 then [digit n] else showNat (n div 10) @ [digit (n mod 10)])"
  by pat_completeness auto
termination
  by (relation "measure id") auto

declare showNat.simps [simp del]




definition indexed :: "'a list \<Rightarrow> (string \<times> 'a) list" where
  "indexed xs = map (\<lambda>(i, x). (showNat i, x)) (zip [0 ..< length xs] xs)"


section \<open>Property key transformation (\<^verbatim>\<open>transformPropertyKeys\<close>)\<close>

text \<open>
  \<^verbatim>\<open>transformPropertyKeys(properties, transform)\<close> rebuilds the object from its entries.  A key
  that starts with two underscores is kept, every other key goes through \<^verbatim>\<open>transform\<close>.  A
  value is recursed into when lodash \<^verbatim>\<open>isObject\<close> holds and it is neither an array, nor a
  \<^verbatim>\<open>Blob\<close>, nor a \<^verbatim>\<open>Date\<close>: a plain object through its entries, a \<^verbatim>\<open>FileList\<close> through its
  indexed files (each a \<^verbatim>\<open>Blob\<close>, so kept), a \<^verbatim>\<open>FormData\<close> through no entry at all.
\<close>

definition transformKey :: "(string \<Rightarrow> string) \<Rightarrow> string \<Rightarrow> string" where
  "transformKey transform key = (if startsWith key ''__'' then key else transform key)"

fun transformPropertyKeys :: "properties \<Rightarrow> (string \<Rightarrow> string) \<Rightarrow> properties" where
  "transformPropertyKeys properties transform =
     fromEntries (map (\<lambda>(key, val).
        (transformKey transform key,
         case val of
           JObj inner \<Rightarrow> JObj (transformPropertyKeys inner transform)
         | JFileList names \<Rightarrow>
             JObj (fromEntries (map (\<lambda>(i, n). (transformKey transform i, JFile n)) (indexed names)))
         | JFormData _ \<Rightarrow> JObj []
         | _ \<Rightarrow> val)) properties)"

declare transformPropertyKeys.simps [simp del]

text \<open>
  \<^verbatim>\<open>transformPropertyKey(property, transform)\<close>: a dotted key is transformed part by part.
\<close>

fun splitOn :: "char \<Rightarrow> string \<Rightarrow> string list" where
  "splitOn c [] = [[]]"
| "splitOn c (x # xs) =
     (if x = c then [] # splitOn c xs
      else (case splitOn c xs of [] \<Rightarrow> [[x]] | p # ps \<Rightarrow> (x # p) # ps))"

fun joinWith :: "string \<Rightarrow> string list \<Rightarrow> string" where
  "joinWith sep [] = []"
| "joinWith sep [p] = p"
| "joinWith sep (p # q # ps) = p @ sep @ joinWith sep (q # ps)"

definition transformPropertyKey :: "string \<Rightarrow> (string \<Rightarrow> string) \<Rightarrow> string" where
  "transformPropertyKey property transform =
     (if CHR ''.'' \<in> set property then joinWith ''.'' (map transform (splitOn CHR ''.'' property))
      else transform property)"









subsection \<open>Objects built from entries with distinct keys\<close>

lemma arrayIndex_name [simp]: "c \<notin> set ''0123456789'' \<Longrightarrow> arrayIndex (c # cs) = None"
  by (simp add: arrayIndex_def isDigit_def)

lemma setEntry_Nil [simp]: "setEntry k v [] = [(k, v)]"
  by (simp add: setEntry_def)

lemma setEntry_Cons_name [simp]:
  "arrayIndex k = None \<Longrightarrow>
   setEntry k v ((k', v') # es) = (if k' = k then (k, v) # es else (k', v') # setEntry k v es)"
  by (auto simp: setEntry_def)

lemma keys_replaceEntry: "map fst (replaceEntry k v es) = map fst es"
  by (induction es) auto










subsection \<open>Key paths of the transformed object\<close>









section \<open>The event emitter (\<^verbatim>\<open>createEmitter\<close>)\<close>

text \<open>
  A \<^verbatim>\<open>CustomEvent\<close> as the emitter uses it: its name, whether it is cancelable, whether its
  default has been prevented, and the detail.  \<^verbatim>\<open>preventDefault()\<close> sets the flag on a
  cancelable event only.
\<close>

record 'd event =
  eventName :: string
  cancelable :: bool
  defaultPrevented :: bool
  detail :: 'd

definition preventDefault :: "'d event \<Rightarrow> 'd event" where
  "preventDefault ev = (if cancelable ev then ev\<lparr>defaultPrevented := True\<rparr> else ev)"

text \<open>
  A listener is given the event; it returns its result (awaited by the emitter) and says
  whether it called \<^verbatim>\<open>preventDefault()\<close> on the event.
\<close>

type_synonym 'd listener = "'d event \<Rightarrow> jsvalue \<times> bool"

record 'd emitter =
  events :: "string \<Rightarrow> bool option"
  all :: "string \<Rightarrow> 'd listener list option"

text \<open>\<^verbatim>\<open>events[name]?.options\<close> spread into the event: cancelable only when configured so.\<close>

definition createEmitter :: "(string \<Rightarrow> bool option) \<Rightarrow> 'd emitter" where
  "createEmitter evs = \<lparr>events = evs, all = (\<lambda>name. None)\<rparr>"

definition on :: "'d emitter \<Rightarrow> string \<Rightarrow> 'd listener \<Rightarrow> 'd emitter" where
  "on em name listener =
     (case all em name of
        Some listeners \<Rightarrow> em\<lparr>all := (all em)(name := Some (listeners @ [listener]))\<rparr>
      | None \<Rightarrow> em\<lparr>all := (all em)(name := Some [listener])\<rparr>)"

text \<open>
  The third argument of \<^verbatim>\<open>emit\<close>: nothing, one listener, or an array whose elements may be
  undefined; \<^verbatim>\<open>castArray\<close> followed by \<^verbatim>\<open>filter(isDefined)\<close> gives the listeners in it.
\<close>

datatype 'd priority = NoPriority | OnePriority "'d listener" | ManyPriority "'d listener option list"

fun castArrayDefined :: "'d priority \<Rightarrow> 'd listener list" where
  "castArrayDefined NoPriority = []"
| "castArrayDefined (OnePriority l) = [l]"
| "castArrayDefined (ManyPriority ls) = List.map_filter id ls"

definition listenersOf :: "'d emitter \<Rightarrow> string \<Rightarrow> 'd priority \<Rightarrow> 'd listener list" where
  "listenersOf em name priorityListeners =
     castArrayDefined priorityListeners @ (case all em name of Some ls \<Rightarrow> ls | None \<Rightarrow> [])"

text \<open>
  The loop of \<^verbatim>\<open>emit\<close>.  It returns the result of the emission together with the listeners
  it has invoked, in the order of invocation.
\<close>

fun emitLoop :: "'d event \<Rightarrow> 'd listener list \<Rightarrow> jsvalue \<times> 'd listener list" where
  "emitLoop ev [] = (JBool True, [])"
| "emitLoop ev (listener # rest) =
     (let (result, prevented) = listener ev;
          ev' = (if prevented then preventDefault ev else ev)
      in if truthy result then (result, [listener])
         else if \<not> cancelable ev' then
           (let (r, invoked) = emitLoop ev' rest in (r, listener # invoked))
         else if defaultPrevented ev' then (JBool False, [listener])
         else (let (r, invoked) = emitLoop ev' rest in (r, listener # invoked)))"

definition emit :: "'d emitter \<Rightarrow> string \<Rightarrow> 'd \<Rightarrow> 'd priority \<Rightarrow> jsvalue \<times> 'd listener list" where
  "emit em name details priorityListeners =
     emitLoop
       \<lparr>eventName = name,
        cancelable = (case events em name of Some c \<Rightarrow> c | None \<Rightarrow> False),
        defaultPrevented = False,
        detail = details\<rparr>
       (listenersOf em name priorityListeners)"

text \<open>A listener ends the emission when its result is truthy or it prevents the default of a
  cancelable event.\<close>

definition stops :: "'d event \<Rightarrow> 'd listener \<Rightarrow> bool" where
  "stops ev listener = (truthy (fst (listener ev)) \<or> (cancelable ev \<and> snd (listener ev)))"

subsection \<open>Order of invocation and result of an emission\<close>

lemma emitLoop_result:
  "\<not> defaultPrevented ev \<Longrightarrow> emitLoop ev ls =
     (case find (stops ev) ls of
        None \<Rightarrow> (JBool True, ls)
      | Some l \<Rightarrow>
          (if truthy (fst (l ev)) then fst (l ev) else JBool False,
           takeWhile (\<lambda>l. \<not> stops ev l) ls @ [l]))"
proof (induction ls)
  case Nil
  show ?case by simp
next
  case (Cons l ls)
  show ?case
  proof (cases "stops ev l")
    case True
    then show ?thesis
      by (auto simp: stops_def preventDefault_def split: prod.splits)
  next
    case False
    have ev: "(if snd (l ev) then preventDefault ev else ev) = ev"
      using False by (auto simp: stops_def preventDefault_def)
    have nt: "\<not> truthy (fst (l ev))" using False by (simp add: stops_def)
    have step: "emitLoop ev (l # ls) = (fst (emitLoop ev ls), l # snd (emitLoop ev ls))"
      using nt ev Cons.prems by (simp add: case_prod_beta Let_def)
    show ?thesis
      using False Cons.IH [OF Cons.prems]
      by (simp add: step del: emitLoop.simps split: option.splits)
  qed
qed

lemma castArrayDefined_listeners:
  "castArrayDefined priorityListeners =
     (case priorityListeners of
        NoPriority \<Rightarrow> []
      | OnePriority l \<Rightarrow> [l]
      | ManyPriority ls \<Rightarrow> concat (map (\<lambda>entry. case entry of None \<Rightarrow> [] | Some l \<Rightarrow> [l]) ls))"
proof (cases priorityListeners)
  case (ManyPriority ls)
  have "List.map_filter id ls = concat (map (\<lambda>entry. case entry of None \<Rightarrow> [] | Some l \<Rightarrow> [l]) ls)"
    by (induction ls) (auto simp: List.map_filter_simps split: option.splits)
  then show ?thesis using ManyPriority by simp
qed simp_all

text \<open>
  Claim C9.  The listeners of an emission are, in this order: the priority listeners (none,
  the one given, or the defined elements of the array given, in array order), then the
  listeners registered under the name; \<^verbatim>\<open>on\<close> registers at the end of those.  The emission
  invokes them in that order up to and including the first listener that returns a truthy
  result or prevents the default of a cancelable event, and no listener after it; its result
  is that truthy result, else \<^verbatim>\<open>false\<close> for the prevented default, and \<^verbatim>\<open>true\<close> when no
  listener stops it (then all were invoked).
\<close>

theorem emit_first_responder:
  "emit em name details priorityListeners =
     (let ev = \<lparr>eventName = name,
                cancelable = (case events em name of Some c \<Rightarrow> c | None \<Rightarrow> False),
                defaultPrevented = False, detail = details\<rparr>;
          listeners =
            (case priorityListeners of
               NoPriority \<Rightarrow> []
             | OnePriority l \<Rightarrow> [l]
             | ManyPriority ls \<Rightarrow>
                 concat (map (\<lambda>entry. case entry of None \<Rightarrow> [] | Some l \<Rightarrow> [l]) ls))
            @ (case all em name of Some registered \<Rightarrow> registered | None \<Rightarrow> [])
      in case find (stops ev) listeners of
           None \<Rightarrow> (JBool True, listeners)
         | Some l \<Rightarrow>
             (if truthy (fst (l ev)) then fst (l ev) else JBool False,
              takeWhile (\<lambda>l. \<not> stops ev l) listeners @ [l]))
   \<and> all (on em name listener) name
       = Some ((case all em name of Some registered \<Rightarrow> registered | None \<Rightarrow> []) @ [listener])"
proof -
  have a: "all (on em name listener) name
       = Some ((case all em name of Some registered \<Rightarrow> registered | None \<Rightarrow> []) @ [listener])"
    by (simp add: on_def split: option.splits)
  have b: "listenersOf em name priorityListeners =
      (case priorityListeners of
               NoPriority \<Rightarrow> []
             | OnePriority l \<Rightarrow> [l]
             | ManyPriority ls \<Rightarrow>
                 concat (map (\<lambda>entry. case entry of None \<Rightarrow> [] | Some l \<Rightarrow> [l]) ls))
            @ (case all em name of Some registered \<Rightarrow> registered | None \<Rightarrow> [])"
    by (simp only: listenersOf_def castArrayDefined_listeners)
  show ?thesis
    using a by (simp add: emit_def emitLoop_result Let_def b)
qed

text \<open>
  An emission of a cancelable event with a priority listener and three registered ones.  The
  priority listener is invoked first; the second registered listener prevents the default, so
  the result is \<^verbatim>\<open>false\<close> and the third, which would return a truthy result, is not invoked.
\<close>

theorem emit_first_responder_witness:
  "emit (on (on (on (createEmitter (\<lambda>name. Some True)) ''before''
                 (\<lambda>ev. (JUndefined, False))) ''before''
              (\<lambda>ev. (JNull, True))) ''before''
           (\<lambda>ev. (JStr ''late'', False)))
     ''before'' () (ManyPriority [None, Some (\<lambda>ev. (JNum 0, False))])
   = (JBool False, [\<lambda>ev. (JNum 0, False), \<lambda>ev. (JUndefined, False), \<lambda>ev. (JNull, True)])"
proof -
  let ?em = "on (on (on (createEmitter (\<lambda>name. Some True)) ''before''
                 (\<lambda>ev :: unit event. (JUndefined, False))) ''before''
              (\<lambda>ev. (JNull, True))) ''before''
           (\<lambda>ev. (JStr ''late'', False))"
  have r: "all ?em ''before''
      = Some [\<lambda>ev. (JUndefined, False), \<lambda>ev. (JNull, True), \<lambda>ev. (JStr ''late'', False)]"
    by (simp add: on_def createEmitter_def)
  have e: "events ?em ''before'' = Some True"
    by (simp add: on_def createEmitter_def)
  show ?thesis
    using emit_first_responder [of ?em "''before''" "()" "ManyPriority [None, Some (\<lambda>ev. (JNum 0, False))]"]
    by (simp add: r e stops_def Let_def)
qed


section \<open>Pages and fragments\<close>

text \<open>
  A visit is a mutable object that pages and the router point to; a page holds the reference.
  Of a location the router compares \<^verbatim>\<open>href\<close> (without the hash) and copies \<^verbatim>\<open>hash\<close>.
  \<open>pageInfo\<close> is a page without its fragments, which is what a fragment's \<^verbatim>\<open>page\<close> points
  back to.  Fields that the functions below neither read nor write (version, layout,
  defaults, timestamp) are left out.  \<open>None\<close> stands for \<^verbatim>\<open>undefined\<close>.
\<close>

type_synonym visitRef = nat

record location =
  href :: string
  hash :: string

record pageInfo =
  location :: location
  properties :: properties
  visit :: "visitRef option"
  scrollRegions :: "(int \<times> int) list option"
  rememberedState :: "properties option"

record fragment =
  name :: string
  componentId :: string
  properties :: properties
  page :: "pageInfo option"
  fallback :: bool

text \<open>
  The fragments of a page: for each region name, an array of fragments or nulls (inner
  \<open>Some\<close>), or null (inner \<open>None\<close>).  Reading a region that is not in the map gives
  \<^verbatim>\<open>undefined\<close> (outer \<open>None\<close> of \<^const>\<open>lookup\<close>).
\<close>

type_synonym region = "fragment option list option"
type_synonym fragments = "(string \<times> region) list"

datatype error = TypeError | RoutableNotResolved

text \<open>
  A fragment option is missing, null, a value, or a function of
  \<^verbatim>\<open>{ name, currentFragments, nextFragments }\<close> that may return null or undefined.
\<close>

datatype fragmentOption =
    Unset
  | IsNull
  | Is bool
  | Computed "string \<times> fragments \<times> fragments \<Rightarrow> bool option"

record regionOptions =
  stacked :: fragmentOption
  modal :: fragmentOption
  inert :: fragmentOption
  lazy :: fragmentOption

type_synonym fragmentsOptions = "string \<Rightarrow> regionOptions option"

definition resolveOption :: "string \<times> fragments \<times> fragments \<Rightarrow> fragmentOption \<Rightarrow> bool \<Rightarrow> bool" where
  "resolveOption ctx option defaultValue =
     (case option of
        Unset \<Rightarrow> defaultValue
      | Computed f \<Rightarrow> (case f ctx of Some b \<Rightarrow> b | None \<Rightarrow> defaultValue)
      | Is b \<Rightarrow> b
      | IsNull \<Rightarrow> defaultValue)"

text \<open>\<^verbatim>\<open>options[name]?.stacked\<close> and its siblings.\<close>

definition optionOf :: "fragmentsOptions \<Rightarrow> string \<Rightarrow> (regionOptions \<Rightarrow> fragmentOption) \<Rightarrow> fragmentOption" where
  "optionOf options regionName field = (case options regionName of None \<Rightarrow> Unset | Some ro \<Rightarrow> field ro)"

definition resolveStacked :: "fragmentsOptions \<Rightarrow> string \<times> fragments \<times> fragments \<Rightarrow> bool" where
  "resolveStacked options ctx =
     resolveOption ctx (optionOf options (fst ctx) stacked)
       (resolveOption ctx (optionOf options (fst ctx) modal) False)"

definition resolveInert :: "fragmentsOptions \<Rightarrow> string \<times> fragments \<times> fragments \<Rightarrow> bool" where
  "resolveInert options ctx =
     resolveOption ctx (optionOf options (fst ctx) inert)
       (list_ex (\<lambda>nextFragmentName. resolveOption ctx (optionOf options nextFragmentName modal) False)
          (getKeys (snd (snd ctx))))"

definition resolveLazy :: "fragmentsOptions \<Rightarrow> string \<times> fragments \<times> fragments \<Rightarrow> bool" where
  "resolveLazy options ctx = resolveOption ctx (optionOf options (fst ctx) lazy) True"

text \<open>
  \<^verbatim>\<open>castArray(nextFragments)[0]\<close>: undefined for a missing region and for an empty array,
  null for a null region and for an array that starts with null.
\<close>

fun firstFragment :: "region option \<Rightarrow> fragment option option" where
  "firstFragment None = None"
| "firstFragment (Some None) = Some None"
| "firstFragment (Some (Some [])) = None"
| "firstFragment (Some (Some (f # fs))) = Some f"

definition locationOf :: "fragment option \<Rightarrow> string option" where
  "locationOf f = (case f of None \<Rightarrow> None | Some fr \<Rightarrow>
     (case page fr of None \<Rightarrow> None | Some p \<Rightarrow> Some (href (location p))))"

definition visitOf :: "fragment option \<Rightarrow> visitRef option" where
  "visitOf f = (case f of None \<Rightarrow> None | Some fr \<Rightarrow>
     (case page fr of None \<Rightarrow> None | Some p \<Rightarrow> visit p))"

text \<open>The test that makes the incoming fragment replace the stack from the current entry on.\<close>

definition replaces :: "bool \<Rightarrow> fragment \<Rightarrow> fragment option \<Rightarrow> bool" where
  "replaces isStacked nextFragment currentFragment =
     ((fallback nextFragment \<and> currentFragment \<noteq> None) \<or> \<not> isStacked \<or>
      (isStacked \<and> locationOf currentFragment = locationOf (Some nextFragment)))"

text \<open>
  The body of the replace branch: the incoming fragment inherits the properties of the
  current one, takes over its visit when the component is reused (which needs the incoming
  fragment to have a page, else the assignment throws), and replaces everything from
  \<open>index\<close> on (\<^verbatim>\<open>splice(index, 9e9, nextFragment)\<close>).
\<close>

definition replaceFrom ::
  "bool \<Rightarrow> fragment \<Rightarrow> fragment option list \<Rightarrow> nat \<Rightarrow> error + fragment \<times> fragment option list" where
  "replaceFrom isLazy nextFragment cumulatedFragments index =
     (let currentFragment = cumulatedFragments ! index;
          inherited = nextFragment\<lparr>properties :=
            spread (case currentFragment of None \<Rightarrow> [] | Some c \<Rightarrow> properties c)
                   (properties nextFragment)\<rparr>
      in if (isLazy \<and> map_option componentId currentFragment = Some (componentId nextFragment))
            \<or> locationOf currentFragment = locationOf (Some nextFragment)
         then (case page inherited of
                 None \<Rightarrow> Inl TypeError
               | Some p \<Rightarrow>
                   (let reused = inherited\<lparr>page := Some (p\<lparr>visit := visitOf currentFragment\<rparr>)\<rparr>
                    in Inr (reused, take index cumulatedFragments @ [Some reused])))
         else Inr (inherited, take index cumulatedFragments @ [Some inherited]))"

lemma replaces_self: "replaces isStacked nextFragment (Some nextFragment)"
  by (simp add: replaces_def)

text \<open>
  The \<^verbatim>\<open>for ... of\<close> loop over the copied array.  The array iterator reads the length anew
  at every step, so it also reaches the entries pushed during the loop.
\<close>

function stackLoop ::
  "bool \<Rightarrow> bool \<Rightarrow> fragment \<Rightarrow> fragment option list \<Rightarrow> nat \<Rightarrow> error + fragment \<times> fragment option list" where
  "stackLoop isStacked isLazy nextFragment cumulatedFragments index =
     (if index < length cumulatedFragments then
        (if replaces isStacked nextFragment (cumulatedFragments ! index)
         then replaceFrom isLazy nextFragment cumulatedFragments index
         else stackLoop isStacked isLazy nextFragment
                (cumulatedFragments @ [Some nextFragment]) (index + 1))
      else Inr (nextFragment, cumulatedFragments))"
  by pat_completeness auto

termination
proof (relation "measure (\<lambda>(isStacked, isLazy, nextFragment, cumulatedFragments, index).
          length (filter (\<lambda>c. \<not> replaces isStacked nextFragment c) (drop index cumulatedFragments)))")
  show "wf (measure (\<lambda>(isStacked, isLazy, nextFragment, cumulatedFragments, index).
          length (filter (\<lambda>c. \<not> replaces isStacked nextFragment c) (drop index cumulatedFragments))))"
    by simp
next
  fix isStacked isLazy :: bool and nextFragment :: fragment
    and cumulatedFragments :: "fragment option list" and index :: nat
  assume i: "index < length cumulatedFragments"
    and n: "\<not> replaces isStacked nextFragment (cumulatedFragments ! index)"
  have d: "drop index cumulatedFragments
             = cumulatedFragments ! index # drop (index + 1) cumulatedFragments"
    using i by (simp add: Cons_nth_drop_Suc)
  show "((isStacked, isLazy, nextFragment, cumulatedFragments @ [Some nextFragment], index + 1),
         (isStacked, isLazy, nextFragment, cumulatedFragments, index))
        \<in> measure (\<lambda>(isStacked, isLazy, nextFragment, cumulatedFragments, index).
          length (filter (\<lambda>c. \<not> replaces isStacked nextFragment c) (drop index cumulatedFragments)))"
    using i n by (simp add: d replaces_self)
qed

declare stackLoop.simps [simp del]

text \<open>
  One step of the \<^verbatim>\<open>reduce\<close> over the region names.  The state is the accumulated map and
  the incoming map: the incoming fragment is mutated in place (properties, visit), and
  option functions called for later names are given the incoming map as it then is.
\<close>

definition storeFirst :: "string \<Rightarrow> fragment \<Rightarrow> fragments \<Rightarrow> fragments" where
  "storeFirst regionName nextFragment allNextFragments =
     (case lookup allNextFragments regionName of
        Some (Some (f # fs)) \<Rightarrow> setEntry regionName (Some (Some nextFragment # fs)) allNextFragments
      | _ \<Rightarrow> allNextFragments)"

definition mergeRegion ::
  "fragmentsOptions \<Rightarrow> fragments \<Rightarrow> fragments \<times> fragments \<Rightarrow> string \<Rightarrow> error + fragments \<times> fragments" where
  "mergeRegion options allCurrentFragments state regionName =
     (let allCumulatedFragments = fst state;
          allNextFragments = snd state;
          cumulatedFragments = lookup allCumulatedFragments regionName;
          nextFragment = firstFragment (lookup allNextFragments regionName);
          ctx = (regionName, allCurrentFragments, allNextFragments);
          isStacked = resolveStacked options ctx;
          isInert = resolveInert options ctx;
          isLazy = resolveLazy options ctx
      in case nextFragment of
           Some (Some nf) \<Rightarrow>
             (case cumulatedFragments of
                Some (Some cumulated) \<Rightarrow>
                  (case stackLoop isStacked isLazy nf cumulated 0 of
                     Inl e \<Rightarrow> Inl e
                   | Inr (nf', cumulated') \<Rightarrow>
                       Inr (setEntry regionName (Some cumulated') allCumulatedFragments,
                            storeFirst regionName nf' allNextFragments))
              | Some None \<Rightarrow>
                  (if fallback nf then Inr (setEntry regionName None allCumulatedFragments, allNextFragments)
                   else Inr (setEntry regionName (Some [Some nf]) allCumulatedFragments, allNextFragments))
              | None \<Rightarrow> Inr (setEntry regionName (Some [Some nf]) allCumulatedFragments, allNextFragments))
         | Some None \<Rightarrow> Inr (setEntry regionName None allCumulatedFragments, allNextFragments)
         | None \<Rightarrow>
             (if \<not> isInert then Inr (setEntry regionName None allCumulatedFragments, allNextFragments)
              else (case cumulatedFragments of
                      None \<Rightarrow> Inr (allCumulatedFragments, allNextFragments)
                    | Some c \<Rightarrow> Inr (setEntry regionName c allCumulatedFragments, allNextFragments))))"

definition mergeNames ::
  "fragmentsOptions \<Rightarrow> fragments \<Rightarrow> error + fragments \<times> fragments \<Rightarrow> string list
     \<Rightarrow> error + fragments \<times> fragments" where
  "mergeNames options allCurrentFragments start names =
     foldl (\<lambda>acc regionName. case acc of Inl e \<Rightarrow> Inl e
                        | Inr state \<Rightarrow> mergeRegion options allCurrentFragments state regionName)
       start names"

definition regionNames :: "fragments \<Rightarrow> fragments \<Rightarrow> string list" where
  "regionNames allCurrentFragments allNextFragments =
     uniq (getKeys allCurrentFragments @ getKeys allNextFragments)"

definition mergeFragments :: "fragments \<Rightarrow> fragments \<Rightarrow> fragmentsOptions \<Rightarrow> error + fragments" where
  "mergeFragments allCurrentFragments allNextFragments options =
     (case mergeNames options allCurrentFragments (Inr (allCurrentFragments, allNextFragments))
             (regionNames allCurrentFragments allNextFragments) of
        Inl e \<Rightarrow> Inl e
      | Inr (allCumulatedFragments, mutated) \<Rightarrow> Inr allCumulatedFragments)"


subsection \<open>Region by region\<close>

lemma lookup_None_iff: "lookup es k = None \<longleftrightarrow> k \<notin> fst ` set es"
  by (induction es) force+

lemma lookup_replaceEntry:
  "k \<in> fst ` set es \<Longrightarrow>
   lookup (replaceEntry k v es) k' = (if k' = k then Some v else lookup es k')"
  by (induction es) (auto simp: rev_image_eqI)

lemma lookup_insertEntry:
  "k \<notin> fst ` set es \<Longrightarrow>
   lookup (insertEntry k v es) k' = (if k' = k then Some v else lookup es k')"
  by (induction es) (auto split: option.splits)

lemma lookup_setEntry: "lookup (setEntry k v es) k' = (if k' = k then Some v else lookup es k')"
  by (simp add: setEntry_def lookup_replaceEntry lookup_insertEntry)

lemma getKeys_setEntry: "lookup es k \<noteq> None \<Longrightarrow> getKeys (setEntry k v es) = getKeys es"
  by (simp add: lookup_None_iff setEntry_def getKeys_def keys_replaceEntry)

lemma replaceEntry_same:
  "(k, v) \<in> set es \<Longrightarrow> distinct (map fst es) \<Longrightarrow> replaceEntry k v es = es"
  by (induction es) (auto simp: rev_image_eqI)

lemma uniq_foldl:
  "distinct acc \<Longrightarrow>
   distinct (foldl (\<lambda>acc x. if x \<in> set acc then acc else acc @ [x]) acc xs) \<and>
   set (foldl (\<lambda>acc x. if x \<in> set acc then acc else acc @ [x]) acc xs) = set acc \<union> set xs"
  by (induction xs arbitrary: acc) auto

lemma distinct_uniq: "distinct (uniq xs)"
  using uniq_foldl [of "[]" xs] by (simp add: uniq_def)

lemma set_uniq: "set (uniq xs) = set xs"
  using uniq_foldl [of "[]" xs] by (simp add: uniq_def)

lemma storeFirst_lookup:
  "lookup (storeFirst n f nxt) k = (if k = n then (case lookup nxt n of Some (Some (g # gs)) \<Rightarrow> Some (Some (Some f # gs)) | other \<Rightarrow> other) else lookup nxt k)"
  by (auto simp: storeFirst_def lookup_setEntry split: option.splits list.splits)

lemma storeFirst_keys: "getKeys (storeFirst n f nxt) = getKeys nxt"
  by (auto simp: storeFirst_def getKeys_setEntry split: option.splits list.splits)

lemma mergeRegion_other:
  assumes "mergeRegion opts cur (acc, nxt) n = Inr (acc', nxt')"
  shows "getKeys nxt' = getKeys nxt"
    and "k \<noteq> n \<Longrightarrow> lookup acc' k = lookup acc k"
    and "k \<noteq> n \<Longrightarrow> lookup nxt' k = lookup nxt k"
  using assms
  by (auto simp: mergeRegion_def Let_def lookup_setEntry storeFirst_lookup storeFirst_keys
           split: option.splits sum.splits if_splits prod.splits)

lemma mergeNames_Nil: "mergeNames opts cur start [] = start"
  by (simp add: mergeNames_def)

lemma mergeNames_Cons:
  "mergeNames opts cur start (n # ns) =
     mergeNames opts cur (case start of Inl e \<Rightarrow> Inl e | Inr state \<Rightarrow> mergeRegion opts cur state n) ns"
  by (simp add: mergeNames_def)

lemma mergeNames_append:
  "mergeNames opts cur start (ns @ ms) = mergeNames opts cur (mergeNames opts cur start ns) ms"
  by (simp add: mergeNames_def)



lemma mergeRegion_absent:
  assumes "firstFragment (lookup nxt n) = None"
  shows "mergeRegion opts cur (acc, nxt) n =
     Inr (if resolveInert opts (n, cur, nxt)
          then (case lookup acc n of None \<Rightarrow> acc | Some c \<Rightarrow> setEntry n c acc)
          else setEntry n None acc, nxt)"
  using assms by (simp add: mergeRegion_def Let_def split: option.splits)


lemma split_names:
  assumes "r \<in> set ns" "distinct ns"
  shows "\<exists>rest. ns = takeWhile (\<lambda>n. n \<noteq> r) ns @ r # rest \<and> r \<notin> set rest \<and> r \<notin> set (takeWhile (\<lambda>n. n \<noteq> r) ns)"
proof -
  have a: "ns = takeWhile (\<lambda>n. n \<noteq> r) ns @ dropWhile (\<lambda>n. n \<noteq> r) ns" by simp
  have b: "dropWhile (\<lambda>n. n \<noteq> r) ns \<noteq> []" using assms(1) by (simp add: dropWhile_eq_Nil_conv)
  then obtain x rest where c: "dropWhile (\<lambda>n. n \<noteq> r) ns = x # rest" by (cases "dropWhile (\<lambda>n. n \<noteq> r) ns") auto
  have x: "x = r" using hd_dropWhile [OF b] c by simp
  have d: "ns = takeWhile (\<lambda>n. n \<noteq> r) ns @ r # rest" using a c x by simp
  have "distinct (takeWhile (\<lambda>n. n \<noteq> r) ns @ r # rest)" using assms(2) d by metis
  then have "r \<notin> set rest" by simp
  moreover have "r \<notin> set (takeWhile (\<lambda>n. n \<noteq> r) ns)" by (auto dest: set_takeWhileD)
  ultimately show ?thesis using d by blast
qed


text \<open>Example fragments and options.\<close>

definition exampleFragment :: "string \<Rightarrow> string \<Rightarrow> string \<Rightarrow> visitRef \<Rightarrow> fragment" where
  "exampleFragment n c h v =
     \<lparr>name = n, componentId = c, properties = [],
      page = Some \<lparr>location = \<lparr>href = h, hash = []\<rparr>, properties = [], visit = Some v,
                   scrollRegions = None, rememberedState = None\<rparr>,
      fallback = False\<rparr>"

definition stackedOnly :: fragmentsOptions where
  "stackedOnly = (\<lambda>n. if n = ''modal''
      then Some \<lparr>stacked = Is True, modal = Unset, inert = Unset, lazy = Unset\<rparr> else None)"





subsection \<open>The stacking loop\<close>

lemma stackLoop_first_match:
  assumes "index \<le> j" and "index < length arr"
    and "\<forall>i. index \<le> i \<and> i < j \<longrightarrow>
           \<not> replaces isStacked nf ((arr @ replicate (i - index) (Some nf)) ! i)"
    and "replaces isStacked nf ((arr @ replicate (j - index) (Some nf)) ! j)"
  shows "stackLoop isStacked isLazy nf arr index
           = replaceFrom isLazy nf (arr @ replicate (j - index) (Some nf)) j"
  using assms
proof (induction "j - index" arbitrary: arr index)
  case 0
  then have "j = index" by simp
  then show ?case using "0.prems" by (simp add: stackLoop.simps [of _ _ _ arr index])
next
  case (Suc d)
  have lt: "index < j" using Suc.hyps(2) by simp
  have no: "\<not> replaces isStacked nf (arr ! index)"
    using Suc.prems(3) lt by (metis append_Nil2 diff_self_eq_0 le_refl replicate_0)
  have step: "stackLoop isStacked isLazy nf arr index
      = stackLoop isStacked isLazy nf (arr @ [Some nf]) (index + 1)"
    using no Suc.prems(2) by (simp add: stackLoop.simps [of _ _ _ arr index])
  have rep: "\<And>i. index + 1 \<le> i \<Longrightarrow>
      (arr @ [Some nf]) @ replicate (i - (index + 1)) (Some nf) = arr @ replicate (i - index) (Some nf)"
  proof -
    fix i assume "index + 1 \<le> i"
    then have "i - index = Suc (i - (index + 1))" by simp
    then show "(arr @ [Some nf]) @ replicate (i - (index + 1)) (Some nf) = arr @ replicate (i - index) (Some nf)"
      by simp
  qed
  have d: "d = j - (index + 1)" using Suc.hyps(2) by simp
  have a1: "index + 1 \<le> j" using lt by simp
  have a2: "index + 1 < length (arr @ [Some nf])" using Suc.prems(2) by simp
  have a3: "\<forall>i. index + 1 \<le> i \<and> i < j \<longrightarrow>
           \<not> replaces isStacked nf (((arr @ [Some nf]) @ replicate (i - (index + 1)) (Some nf)) ! i)"
    using Suc.prems(3) rep by auto
  have a4: "replaces isStacked nf (((arr @ [Some nf]) @ replicate (j - (index + 1)) (Some nf)) ! j)"
    using Suc.prems(4) rep [OF a1] by simp
  show ?case
    using Suc.hyps(1) [OF d a1 a2 a3 a4] rep [OF a1] step by simp
qed

lemma spread_self: "distinct (getKeys a) \<Longrightarrow> spread a a = a"
proof -
  have "\<And>acc. distinct (map fst acc) \<Longrightarrow> set b \<subseteq> set acc \<Longrightarrow>
      foldl (\<lambda>acc (k, v). setEntry k v acc) acc b = acc" for b :: "(string \<times> 'a) list"
  proof (induction b)
    case Nil
    show ?case by simp
  next
    case (Cons e b)
    obtain k v where e: "e = (k, v)" by (cases e)
    have m: "(k, v) \<in> set acc" using Cons.prems e by auto
    have "k \<in> fst ` set acc" using m by force
    then have "setEntry k v acc = acc"
      using Cons.prems(1) m by (simp add: setEntry_def replaceEntry_same)
    then show ?case using Cons e by simp
  qed
  from this [of a a] show "distinct (getKeys a) \<Longrightarrow> spread a a = a"
    by (simp add: spread_def getKeys_def)
qed

text \<open>Pushing onto a non-empty stack whose entries all have another location.\<close>

lemma stackLoop_push:
  assumes ne: "cum \<noteq> []"
    and nf: "page nf = Some p" "\<not> fallback nf" "distinct (getKeys (properties nf))"
    and other: "\<forall>c \<in> set cum. locationOf c \<noteq> Some (href (location p))"
  shows "stackLoop True isLazy nf cum 0 = Inr (nf, cum @ [Some nf])"
proof -
  have loc: "locationOf (Some nf) = Some (href (location p))"
    using nf(1) by (simp add: locationOf_def)
  have a3: "\<forall>i. 0 \<le> i \<and> i < length cum \<longrightarrow>
           \<not> replaces True nf ((cum @ replicate (i - 0) (Some nf)) ! i)"
    using other nf(2) loc by (auto simp: replaces_def nth_append)
  have a4: "replaces True nf ((cum @ replicate (length cum - 0) (Some nf)) ! length cum)"
    using ne by (simp add: nth_append replaces_self)
  have "stackLoop True isLazy nf cum 0
      = replaceFrom isLazy nf (cum @ replicate (length cum - 0) (Some nf)) (length cum)"
    using ne by (intro stackLoop_first_match [OF _ _ a3 a4]) simp_all
  also have "\<dots> = Inr (nf, cum @ [Some nf])"
    using ne nf(1) by (simp add: replaceFrom_def Let_def nth_append spread_self [OF nf(3)]
        locationOf_def visitOf_def)
  finally show ?thesis .
qed

text \<open>Replacing the topEntry of the stack, whose location is that of the incoming fragment.\<close>

lemma stackLoop_replace_top:
  assumes nf: "page nf = Some p" "\<not> fallback nf"
    and topEntry: "locationOf topEntry = Some (href (location p))"
    and other: "\<forall>c \<in> set below. locationOf c \<noteq> Some (href (location p))"
  shows "stackLoop True isLazy nf (below @ [topEntry]) 0 =
     Inr (nf\<lparr>properties := spread (case topEntry of None \<Rightarrow> [] | Some c \<Rightarrow> properties c) (properties nf),
             page := Some (p\<lparr>visit := visitOf topEntry\<rparr>)\<rparr>,
          below @ [Some (nf\<lparr>properties := spread (case topEntry of None \<Rightarrow> [] | Some c \<Rightarrow> properties c) (properties nf),
             page := Some (p\<lparr>visit := visitOf topEntry\<rparr>)\<rparr>)])"
proof -
  have loc: "locationOf (Some nf) = Some (href (location p))"
    using nf(1) by (simp add: locationOf_def)
  have a3: "\<forall>i. 0 \<le> i \<and> i < length below \<longrightarrow>
           \<not> replaces True nf (((below @ [topEntry]) @ replicate (i - 0) (Some nf)) ! i)"
    using other nf(2) loc by (auto simp: replaces_def nth_append)
  have a4: "replaces True nf (((below @ [topEntry]) @ replicate (length below - 0) (Some nf)) ! length below)"
    using topEntry loc by (simp add: nth_append replaces_def)
  have "stackLoop True isLazy nf (below @ [topEntry]) 0
      = replaceFrom isLazy nf ((below @ [topEntry]) @ replicate (length below - 0) (Some nf)) (length below)"
    by (intro stackLoop_first_match [OF _ _ a3 a4]) simp_all
  also have "\<dots> = Inr (nf\<lparr>properties := spread (case topEntry of None \<Rightarrow> [] | Some c \<Rightarrow> properties c) (properties nf),
             page := Some (p\<lparr>visit := visitOf topEntry\<rparr>)\<rparr>,
          below @ [Some (nf\<lparr>properties := spread (case topEntry of None \<Rightarrow> [] | Some c \<Rightarrow> properties c) (properties nf),
             page := Some (p\<lparr>visit := visitOf topEntry\<rparr>)\<rparr>)])"
    using nf(1) topEntry loc by (simp add: replaceFrom_def Let_def nth_append)
  finally show ?thesis .
qed

lemma lookup_in_keys: "lookup es k \<noteq> None \<longleftrightarrow> k \<in> set (getKeys es)"
  by (induction es) (auto simp: getKeys_def)

lemma mergeNames_absent:
  assumes "\<forall>k \<in> set ns. firstFragment (lookup nxt k) = None" and "r \<notin> set ns"
  shows "\<exists>acc'. mergeNames opts cur (Inr (acc, nxt)) ns = Inr (acc', nxt) \<and> lookup acc' r = lookup acc r"
  using assms
proof (induction ns arbitrary: acc)
  case Nil
  show ?case by (simp add: mergeNames_Nil)
next
  case (Cons n ns)
  have a: "firstFragment (lookup nxt n) = None" using Cons.prems by simp
  let ?acc1 = "if resolveInert opts (n, cur, nxt)
          then (case lookup acc n of None \<Rightarrow> acc | Some c \<Rightarrow> setEntry n c acc)
          else setEntry n None acc"
  have step: "mergeRegion opts cur (acc, nxt) n = Inr (?acc1, nxt)"
    by (rule mergeRegion_absent [OF a])
  have l: "lookup ?acc1 r = lookup acc r"
    using Cons.prems(2) by (auto simp: lookup_setEntry split: option.splits)
  obtain acc' where "mergeNames opts cur (Inr (?acc1, nxt)) ns = Inr (acc', nxt)"
      and "lookup acc' r = lookup ?acc1 r"
    using Cons.IH [of ?acc1] Cons.prems by auto
  then show ?case using l by (auto simp: mergeNames_Cons step)
qed

text \<open>Merging an incoming map whose only fragment is in region \<open>r\<close>.\<close>

lemma mergeFragments_single_region:
  assumes only: "\<forall>k. k \<noteq> r \<longrightarrow> firstFragment (lookup nxt k) = None"
      and first: "firstFragment (lookup nxt r) = Some (Some nf)"
  shows "\<exists>acc. lookup acc r = lookup cur r \<and>
           (\<forall>acc2 nxt2. mergeRegion opts cur (acc, nxt) r = Inr (acc2, nxt2) \<longrightarrow>
              (\<exists>res. mergeFragments cur nxt opts = Inr res \<and> lookup res r = lookup acc2 r))"
proof -
  let ?ns = "regionNames cur nxt"
  let ?pre = "takeWhile (\<lambda>n. n \<noteq> r) ?ns"
  have "lookup nxt r \<noteq> None" using first by (cases "lookup nxt r") auto
  then have rin: "r \<in> set ?ns"
    using lookup_in_keys [of nxt r] by (simp add: regionNames_def set_uniq)
  obtain rest where ns: "?ns = ?pre @ r # rest" and r1: "r \<notin> set rest" and r2: "r \<notin> set ?pre"
    using split_names [OF rin] distinct_uniq by (auto simp: regionNames_def)
  have p: "\<forall>k \<in> set ?pre. firstFragment (lookup nxt k) = None" using only r2 by auto
  obtain acc1 where pre: "mergeNames opts cur (Inr (cur, nxt)) ?pre = Inr (acc1, nxt)"
      and l1: "lookup acc1 r = lookup cur r"
    using mergeNames_absent [OF p r2, of opts cur cur] by auto
  have "\<exists>res. mergeFragments cur nxt opts = Inr res \<and> lookup res r = lookup acc2 r"
    if step: "mergeRegion opts cur (acc1, nxt) r = Inr (acc2, nxt2)" for acc2 nxt2
  proof -
    have q: "\<forall>k \<in> set rest. firstFragment (lookup nxt2 k) = None"
      using only r1 mergeRegion_other(3) [OF step] by (metis (full_types))
    obtain res where fin: "mergeNames opts cur (Inr (acc2, nxt2)) rest = Inr (res, nxt2)"
        and l2: "lookup res r = lookup acc2 r"
      using mergeNames_absent [OF q r1, of opts cur acc2] by auto
    have "mergeNames opts cur (Inr (cur, nxt)) ?ns = Inr (res, nxt2)"
      by (subst ns) (simp add: mergeNames_append pre mergeNames_Cons step fin)
    then show ?thesis using l2 by (simp add: mergeFragments_def)
  qed
  then show ?thesis using l1 by blast
qed

lemma firstFragment_single:
  "firstFragment (lookup [(r, Some [Some f])] k) = (if k = r then Some (Some f) else None)"
  by simp

lemma resolveStacked_static:
  "optionOf opts r stacked = Is True \<Longrightarrow> resolveStacked opts (r, c, n)"
  by (simp add: resolveStacked_def resolveOption_def)

text \<open>One merge of a single incoming fragment into a stacked region.\<close>

lemma merge_into_empty:
  assumes "lookup cur r = None \<or> lookup cur r = Some None" and "\<not> fallback f"
  shows "\<exists>res. mergeFragments cur [(r, Some [Some f])] opts = Inr res \<and>
           lookup res r = Some (Some [Some f])"
proof -
  obtain acc where a: "lookup acc r = lookup cur r"
    and b: "\<And>acc2 nxt2. mergeRegion opts cur (acc, [(r, Some [Some f])]) r = Inr (acc2, nxt2) \<Longrightarrow>
              (\<exists>res. mergeFragments cur [(r, Some [Some f])] opts = Inr res \<and> lookup res r = lookup acc2 r)"
    using mergeFragments_single_region [of r "[(r, Some [Some f])]" f cur opts] by auto
  have "mergeRegion opts cur (acc, [(r, Some [Some f])]) r
          = Inr (setEntry r (Some [Some f]) acc, [(r, Some [Some f])])"
    using assms a by (auto simp: mergeRegion_def Let_def)
  from b [OF this] show ?thesis by (simp add: lookup_setEntry)
qed

lemma merge_into_stack:
  assumes st: "optionOf opts r stacked = Is True"
    and cur: "lookup cur r = Some (Some cum)"
    and loop: "\<And>isLazy. stackLoop True isLazy f cum 0 = Inr (f', cum')"
  shows "\<exists>res. mergeFragments cur [(r, Some [Some f])] opts = Inr res \<and>
           lookup res r = Some (Some cum')"
proof -
  obtain acc where a: "lookup acc r = lookup cur r"
    and b: "\<And>acc2 nxt2. mergeRegion opts cur (acc, [(r, Some [Some f])]) r = Inr (acc2, nxt2) \<Longrightarrow>
              (\<exists>res. mergeFragments cur [(r, Some [Some f])] opts = Inr res \<and> lookup res r = lookup acc2 r)"
    using mergeFragments_single_region [of r "[(r, Some [Some f])]" f cur opts] by auto
  have "mergeRegion opts cur (acc, [(r, Some [Some f])]) r
          = Inr (setEntry r (Some cum') acc, storeFirst r f' [(r, Some [Some f])])"
    using a cur loop resolveStacked_static [OF st] by (simp add: mergeRegion_def Let_def)
  from b [OF this] show ?thesis by (simp add: lookup_setEntry)
qed

text \<open>
  The branch for a region that has no array yet.  Let region \<open>r\<close> have \<^verbatim>\<open>stacked: true\<close> and
  be missing or null in the current map.  Merging, one after the other, three incoming
  fragments that are not fallbacks and whose pages have pairwise distinct locations gives the
  stack of the three in the order of submission.  Merging a fourth, not a fallback, whose
  location is that of the top entry keeps three entries: the top is the fourth fragment, with
  the properties of the old top below its own and with the old top's visit.
\<close>

lemma stacked_growth_from_missing_region:
  assumes st: "optionOf options r stacked = Is True"
    and empty: "lookup cur r = None \<or> lookup cur r = Some None"
    and pages: "page F1 = Some p1" "page F2 = Some p2" "page F3 = Some p3" "page F4 = Some p4"
    and real: "\<not> fallback F1" "\<not> fallback F2" "\<not> fallback F3" "\<not> fallback F4"
    and keys: "distinct (getKeys (properties F2))" "distinct (getKeys (properties F3))"
    and apart: "href (location p1) \<noteq> href (location p2)"
               "href (location p1) \<noteq> href (location p3)"
               "href (location p2) \<noteq> href (location p3)"
    and same: "href (location p4) = href (location p3)"
  shows "\<exists>c1 c2 c3 c4.
      mergeFragments cur [(r, Some [Some F1])] options = Inr c1 \<and>
      mergeFragments c1 [(r, Some [Some F2])] options = Inr c2 \<and>
      mergeFragments c2 [(r, Some [Some F3])] options = Inr c3 \<and>
      lookup c3 r = Some (Some [Some F1, Some F2, Some F3]) \<and>
      mergeFragments c3 [(r, Some [Some F4])] options = Inr c4 \<and>
      lookup c4 r = Some (Some [Some F1, Some F2,
        Some (F4\<lparr>properties := spread (properties F3) (properties F4),
                 page := Some (p4\<lparr>visit := visit p3\<rparr>)\<rparr>)])"
proof -
  obtain c1 where m1: "mergeFragments cur [(r, Some [Some F1])] options = Inr c1"
      and l1: "lookup c1 r = Some (Some [Some F1])"
    using merge_into_empty [OF empty real(1)] by blast
  have s2: "\<And>isLazy. stackLoop True isLazy F2 [Some F1] 0 = Inr (F2, [Some F1] @ [Some F2])"
    using pages(1) apart(1)
    by (intro stackLoop_push [OF _ pages(2) real(2) keys(1)]) (simp_all add: locationOf_def)
  obtain c2 where m2: "mergeFragments c1 [(r, Some [Some F2])] options = Inr c2"
      and l2: "lookup c2 r = Some (Some [Some F1, Some F2])"
    using merge_into_stack [OF st l1 s2] by auto
  have s3: "\<And>isLazy. stackLoop True isLazy F3 [Some F1, Some F2] 0
               = Inr (F3, [Some F1, Some F2] @ [Some F3])"
    using pages(1,2) apart(2,3)
    by (intro stackLoop_push [OF _ pages(3) real(3) keys(2)]) (simp_all add: locationOf_def)
  obtain c3 where m3: "mergeFragments c2 [(r, Some [Some F3])] options = Inr c3"
      and l3: "lookup c3 r = Some (Some [Some F1, Some F2, Some F3])"
    using merge_into_stack [OF st l2 s3] by auto
  let ?F4 = "F4\<lparr>properties := spread (properties F3) (properties F4),
                 page := Some (p4\<lparr>visit := visit p3\<rparr>)\<rparr>"
  have s4: "\<And>isLazy. stackLoop True isLazy F4 ([Some F1, Some F2] @ [Some F3]) 0
               = Inr (?F4, [Some F1, Some F2] @ [Some ?F4])"
    using stackLoop_replace_top [OF pages(4) real(4), of "Some F3" "[Some F1, Some F2]"]
      pages(1,2,3) apart same
    by (simp add: locationOf_def visitOf_def)
  obtain c4 where m4: "mergeFragments c3 [(r, Some [Some F4])] options = Inr c4"
      and l4: "lookup c4 r = Some (Some [Some F1, Some F2, Some ?F4])"
    using merge_into_stack [OF st _ s4, of c3] l3 by auto
  show ?thesis using m1 m2 m3 l3 m4 l4 by blast
qed

lemma stacked_growth_example:
  "optionOf stackedOnly ''modal'' stacked = Is True
   \<and> (\<exists>c1 c2 c3 c4.
      mergeFragments [] [(''modal'', Some [Some (exampleFragment ''modal'' ''A'' ''/a'' 1)])] stackedOnly = Inr c1 \<and>
      mergeFragments c1 [(''modal'', Some [Some (exampleFragment ''modal'' ''B'' ''/b'' 2)])] stackedOnly = Inr c2 \<and>
      mergeFragments c2 [(''modal'', Some [Some (exampleFragment ''modal'' ''C'' ''/c'' 3)])] stackedOnly = Inr c3 \<and>
      lookup c3 ''modal'' = Some (Some
        [Some (exampleFragment ''modal'' ''A'' ''/a'' 1),
         Some (exampleFragment ''modal'' ''B'' ''/b'' 2),
         Some (exampleFragment ''modal'' ''C'' ''/c'' 3)]) \<and>
      mergeFragments c3 [(''modal'', Some [Some (exampleFragment ''modal'' ''D'' ''/c'' 4)])] stackedOnly = Inr c4 \<and>
      lookup c4 ''modal'' = Some (Some
        [Some (exampleFragment ''modal'' ''A'' ''/a'' 1),
         Some (exampleFragment ''modal'' ''B'' ''/b'' 2),
         Some (exampleFragment ''modal'' ''D'' ''/c'' 3)]))"
proof -
  have st: "optionOf stackedOnly ''modal'' stacked = Is True"
    by (simp add: optionOf_def stackedOnly_def)
  have d: "exampleFragment ''modal'' ''D'' ''/c'' 4
       \<lparr>properties := spread (properties (exampleFragment ''modal'' ''C'' ''/c'' 3))
                            (properties (exampleFragment ''modal'' ''D'' ''/c'' 4)),
        page := Some (\<lparr>location = \<lparr>href = ''/c'', hash = []\<rparr>, properties = [], visit = Some 4,
                   scrollRegions = None, rememberedState = None\<rparr>
               \<lparr>visit := visit \<lparr>location = \<lparr>href = ''/c'', hash = []\<rparr>, properties = [], visit = Some 3,
                   scrollRegions = None, rememberedState = None\<rparr>\<rparr>)\<rparr>
     = exampleFragment ''modal'' ''D'' ''/c'' 3"
    by (simp add: exampleFragment_def spread_def)
  show ?thesis
    using st stacked_growth_from_missing_region [OF st, of "[]"
      "exampleFragment ''modal'' ''A'' ''/a'' 1"
      "\<lparr>location = \<lparr>href = ''/a'', hash = []\<rparr>, properties = [], visit = Some 1,
                   scrollRegions = None, rememberedState = None\<rparr>"
      "exampleFragment ''modal'' ''B'' ''/b'' 2"
      "\<lparr>location = \<lparr>href = ''/b'', hash = []\<rparr>, properties = [], visit = Some 2,
                   scrollRegions = None, rememberedState = None\<rparr>"
      "exampleFragment ''modal'' ''C'' ''/c'' 3"
      "\<lparr>location = \<lparr>href = ''/c'', hash = []\<rparr>, properties = [], visit = Some 3,
                   scrollRegions = None, rememberedState = None\<rparr>"
      "exampleFragment ''modal'' ''D'' ''/c'' 4"
      "\<lparr>location = \<lparr>href = ''/c'', hash = []\<rparr>, properties = [], visit = Some 4,
                   scrollRegions = None, rememberedState = None\<rparr>"]
    unfolding d
    by (simp add: exampleFragment_def getKeys_def)
qed

text \<open>
  A fallback fragment replaces the whole stack when the entry it meets is not null: after a
  fallback as the second of three fragments the stack has two entries.
\<close>

lemma fallback_replaces_stack:
  "(case mergeFragments [] [(''modal'', Some [Some (exampleFragment ''modal'' ''A'' ''/a'' 1)])] stackedOnly of
      Inr c1 \<Rightarrow>
        (case mergeFragments c1
            [(''modal'', Some [Some ((exampleFragment ''modal'' ''B'' ''/b'' 2)\<lparr>fallback := True\<rparr>)])] stackedOnly of
           Inr c2 \<Rightarrow>
             mergeFragments c2 [(''modal'', Some [Some (exampleFragment ''modal'' ''C'' ''/c'' 3)])] stackedOnly
         | Inl e \<Rightarrow> Inl e)
    | Inl e \<Rightarrow> Inl e)
   = Inr [(''modal'', Some
        [Some ((exampleFragment ''modal'' ''B'' ''/b'' 2)\<lparr>fallback := True\<rparr>),
         Some (exampleFragment ''modal'' ''C'' ''/c'' 3)])]"
  by code_simp

text \<open>
  Claim C3 at a failing input.  The region \<^verbatim>\<open>modal\<close> has \<^verbatim>\<open>stacked: true\<close> and its current
  value is the empty array.  The empty array is truthy, so the branch with the loop over the
  current entries is taken; the loop body, which alone pushes or replaces, never runs.  Each
  of three incoming fragments with pairwise distinct locations, none of them a fallback, is
  dropped: the region is the empty array after every merge, where the claim has a stack of
  three.
\<close>

theorem stacked_empty_array_drops_fragments:
  "mergeFragments [(''modal'', Some [])]
      [(''modal'', Some [Some (exampleFragment ''modal'' ''A'' ''/a'' 1)])] stackedOnly
     = Inr [(''modal'', Some [])]
   \<and> mergeFragments [(''modal'', Some [])]
      [(''modal'', Some [Some (exampleFragment ''modal'' ''B'' ''/b'' 2)])] stackedOnly
     = Inr [(''modal'', Some [])]
   \<and> mergeFragments [(''modal'', Some [])]
      [(''modal'', Some [Some (exampleFragment ''modal'' ''C'' ''/c'' 3)])] stackedOnly
     = Inr [(''modal'', Some [])]"
  by code_simp


section \<open>The router: visits, page stack and events\<close>

text \<open>
  A visit is a mutable object; the router, the pages and the caller of \<^verbatim>\<open>visit\<close> hold
  references to it, so the visits live in a store (\<open>visits\<close>, a reference is an index) and
  a mutation is an update of the store.  \<open>visitId\<close> is the field \<^verbatim>\<open>id\<close>, \<open>visitMethod\<close>
  the field \<^verbatim>\<open>method\<close>, \<open>visitEvents\<close> the field \<^verbatim>\<open>events\<close> (the listeners given with the visit, by event name).  The
  cancel token is absent, or present with the flag "cancel was called".
\<close>

datatype routeMethod = GET | POST | PUT | PATCH | DELETE

record visitFlags =
  completed :: bool
  cancelled :: bool
  interrupted :: bool

text \<open>
  What a listener is given: the visit the event is about, and the flags of every visit of
  the store at the time of the emission.  Listeners observe; they do not call back into the
  router.
\<close>

record detail =
  subject :: "visitRef option"
  flagsThen :: "visitFlags list"

record visit = visitFlags +
  visitId :: string
  visitHref :: string
  visitHash :: string
  visitMethod :: routeMethod
  replace :: bool
  background :: bool
  cancelToken :: "bool option"
  visitEvents :: "string \<Rightarrow> detail listener option"

text \<open>
  The page stack is a JavaScript array: an entry may be an empty slot (\<open>None\<close>), reading
  outside the array gives \<^verbatim>\<open>undefined\<close>, writing behind the end extends it.  The router
  is kept generic in what a stack entry is: a page value, or a reference to a page object
  where identity matters.
\<close>

definition readAt :: "'a option list \<Rightarrow> int \<Rightarrow> 'a option" where
  "readAt xs i = (if 0 \<le> i \<and> nat i < length xs then xs ! nat i else None)"

definition assignAt :: "'a option list \<Rightarrow> nat \<Rightarrow> 'a \<Rightarrow> 'a option list" where
  "assignAt xs i x =
     (if i < length xs then xs[i := Some x]
      else xs @ replicate (i - length xs) None @ [Some x])"

definition setLength :: "'a option list \<Rightarrow> nat \<Rightarrow> 'a option list" where
  "setLength xs n = take n xs @ replicate (n - length xs) None"

record 'p router =
  internalPages :: "'p option list"
  pageIndex :: nat
  activeVisit :: "visitRef option"
  visits :: "visit list"
  emitter :: "detail emitter"
  emitted :: "(string \<times> detail) list"
  unfinished :: "visitRef list"
  fragmentOptions :: fragmentsOptions
  transformServerPropertyKey :: "(string \<Rightarrow> string) option"
  isSSR :: bool
  windowHref :: string
  scrollPositions :: "(int \<times> int) list"
  historyBack :: nat
  redirectedTo :: "string option"

subsection \<open>Reading pages\<close>

definition clonePage :: "'a \<Rightarrow> 'a" where
  "clonePage thePage = thePage"

definition internalPage :: "'p router \<Rightarrow> 'p option" where
  "internalPage s = readAt (internalPages s) (int (pageIndex s))"

definition internalPreviousPage :: "'p router \<Rightarrow> 'p option" where
  "internalPreviousPage s = readAt (internalPages s) (int (pageIndex s) - 1)"

text \<open>The getter \<^verbatim>\<open>page\<close> (\<open>page\<close> is already the field of a fragment).\<close>

definition currentPage :: "'p router \<Rightarrow> 'p option" where
  "currentPage s = clonePage (internalPage s)"

definition previousPage :: "'p router \<Rightarrow> 'p option" where
  "previousPage s = clonePage (internalPreviousPage s)"

subsection \<open>Emitting\<close>

text \<open>
  The events the router configures as cancelable are \<^verbatim>\<open>before\<close>, \<^verbatim>\<open>cancel\<close> and
  \<^verbatim>\<open>exception\<close>.  An emission runs the emitter and is recorded with its detail.
\<close>

definition routerEvents :: "string \<Rightarrow> bool option" where
  "routerEvents evName =
     (if evName \<in> {''before'', ''cancel'', ''exception''} then Some True
      else if evName \<in> {''error'', ''finish'', ''navigate'', ''progress'', ''start'', ''success''}
      then Some False
      else None)"

definition visitAt :: "'p router \<Rightarrow> visitRef \<Rightarrow> visit option" where
  "visitAt s ref = (if ref < length (visits s) then Some (visits s ! ref) else None)"

definition priorityOf :: "visit \<Rightarrow> string \<Rightarrow> detail priority" where
  "priorityOf v evName =
     (case visitEvents v evName of None \<Rightarrow> NoPriority | Some l \<Rightarrow> OnePriority l)"

definition detailNow :: "'p router \<Rightarrow> visitRef option \<Rightarrow> detail" where
  "detailNow s about = \<lparr>subject = about, flagsThen = map visitFlags.truncate (visits s)\<rparr>"

definition routerEmit ::
  "'p router \<Rightarrow> string \<Rightarrow> visitRef option \<Rightarrow> detail priority \<Rightarrow> jsvalue \<times> 'p router" where
  "routerEmit s evName about initialListener =
     (fst (emit (emitter s) evName (detailNow s about) initialListener),
      s\<lparr>emitted := emitted s @ [(evName, detailNow s about)]\<rparr>)"

subsection \<open>Cancelling and finishing a visit\<close>

text \<open>
  \<^verbatim>\<open>cancelVisit\<close> up to and including its emission of \<^verbatim>\<open>cancel\<close>: this much has happened when
  a caller that does not await it goes on.  It answers with the visit whose \<^verbatim>\<open>finish\<close> is
  still to be emitted, if it acted.
\<close>

definition cancelVisitBegin :: "'p router \<Rightarrow> string \<Rightarrow> bool \<Rightarrow> 'p router \<times> visitRef option" where
  "cancelVisitBegin s theId interrupt =
     (case activeVisit s of
        None \<Rightarrow> (s, None)
      | Some ref \<Rightarrow>
          (case visitAt s ref of
             None \<Rightarrow> (s, None)
           | Some v \<Rightarrow>
               if visitId v \<noteq> theId then (s, None)
               else if completed v \<or> cancelled v then (s, None)
               else
                 (let v' = v\<lparr>completed := False, cancelled := True, interrupted := interrupt,
                            cancelToken := map_option (\<lambda>called. True) (cancelToken v)\<rparr>;
                      s' = s\<lparr>visits := (visits s)[ref := v']\<rparr>
                  in (snd (routerEmit s' ''cancel'' (Some ref) (priorityOf v' ''cancel'')), Some ref))))"

definition cancelVisitEnd :: "'p router \<Rightarrow> visitRef \<Rightarrow> 'p router" where
  "cancelVisitEnd s ref =
     (case visitAt s ref of
        None \<Rightarrow> s
      | Some v \<Rightarrow> snd (routerEmit s ''finish'' (Some ref) (priorityOf v ''finish'')))"

definition cancelVisit :: "'p router \<Rightarrow> string \<Rightarrow> bool \<Rightarrow> 'p router" where
  "cancelVisit s theId interrupt =
     (case cancelVisitBegin s theId interrupt of
        (s', None) \<Rightarrow> s'
      | (s', Some ref) \<Rightarrow> cancelVisitEnd s' ref)"

definition finishVisit :: "'p router \<Rightarrow> visitRef \<Rightarrow> 'p router" where
  "finishVisit s ref =
     (case visitAt s ref of
        None \<Rightarrow> s
      | Some v \<Rightarrow>
          if completed v \<or> cancelled v then s
          else
            (let v' = v\<lparr>completed := True, cancelled := False, interrupted := False\<rparr>;
                 s' = s\<lparr>visits := (visits s)[ref := v']\<rparr>
             in snd (routerEmit s' ''finish'' (Some ref) (priorityOf v' ''finish''))))"

text \<open>When \<^verbatim>\<open>cancelVisit(id, interrupt)\<close> acts: the active visit has this id and is pending.\<close>

definition cancellable :: "'p router \<Rightarrow> string \<Rightarrow> bool" where
  "cancellable s theId =
     (case activeVisit s of
        None \<Rightarrow> False
      | Some ref \<Rightarrow>
          (case visitAt s ref of
             None \<Rightarrow> False
           | Some v \<Rightarrow> visitId v = theId \<and> \<not> completed v \<and> \<not> cancelled v))"


text \<open>The flags of a visit of the store: \<^verbatim>\<open>completed\<close>, \<^verbatim>\<open>cancelled\<close>, \<^verbatim>\<open>interrupted\<close>.\<close>

definition flagsAt :: "'p router \<Rightarrow> visitRef \<Rightarrow> (bool \<times> bool \<times> bool) option" where
  "flagsAt s ref = map_option (\<lambda>v. (completed v, cancelled v, interrupted v)) (visitAt s ref)"

subsection \<open>Pages as the router stores them\<close>

text \<open>
  A page is a \<open>pageInfo\<close> with its fragments, an optional base page, and the flag
  \<^verbatim>\<open>obsolete\<close> that only the getter \<^verbatim>\<open>pages\<close> sets.
\<close>

record pageCore = pageInfo +
  fragments :: fragments

record page = pageCore +
  base :: "pageCore option"
  obsolete :: "bool option"

definition mapFragments :: "(fragment \<Rightarrow> fragment) \<Rightarrow> fragments \<Rightarrow> fragments" where
  "mapFragments f frs =
     map (\<lambda>(regionName, region). (regionName, map_option (map (map_option f)) region)) frs"

definition assignPageToFragments :: "'a pageCore_scheme \<Rightarrow> 'a pageCore_scheme" where
  "assignPageToFragments pg =
     pg\<lparr>fragments := mapFragments
          (\<lambda>f. if page f \<noteq> None then f else f\<lparr>page := Some (pageInfo.truncate pg)\<rparr>)
          (fragments pg)\<rparr>"

text \<open>
  \<^verbatim>\<open>mergePages\<close> mutates both of its arguments: it answers with the current page as it is
  afterwards (its fragments have their page assigned) and with the merged page, or the
  error thrown while merging the fragments.
\<close>

definition mergePages ::
  "'a pageCore_scheme option \<Rightarrow> 'b pageCore_scheme \<Rightarrow> fragmentsOptions
     \<Rightarrow> 'a pageCore_scheme option \<times> (error + 'b pageCore_scheme)" where
  "mergePages current nextPage options =
     (let merged = nextPage\<lparr>pageInfo.properties :=
            spread (case current of None \<Rightarrow> [] | Some c \<Rightarrow> pageInfo.properties c)
                   (pageInfo.properties nextPage)\<rparr>;
          current' = map_option assignPageToFragments current;
          assigned = assignPageToFragments merged
      in (current',
          (case mergeFragments (case current' of None \<Rightarrow> [] | Some c \<Rightarrow> fragments c)
                  (fragments assigned) options of
             Inl e \<Rightarrow> Inl e
           | Inr frs \<Rightarrow> Inr (assigned\<lparr>fragments := frs\<rparr>))))"

definition transformPagePropertyKeys ::
  "'a pageCore_scheme \<Rightarrow> (string \<Rightarrow> string) \<Rightarrow> 'a pageCore_scheme" where
  "transformPagePropertyKeys pg transform =
     pg\<lparr>pageInfo.properties := transformPropertyKeys (pageInfo.properties pg) transform,
        fragments := mapFragments
          (\<lambda>f. f\<lparr>properties := transformPropertyKeys (properties f) transform\<rparr>)
          (fragments pg)\<rparr>"

definition transformServerKey :: "'p router \<Rightarrow> string \<Rightarrow> string" where
  "transformServerKey s key =
     transformPropertyKey key
       (case transformServerPropertyKey s of None \<Rightarrow> (\<lambda>value. value) | Some t \<Rightarrow> t)"

text \<open>The getter \<^verbatim>\<open>pages\<close>: a copy of every stored page, flagged obsolete behind the index.\<close>

definition pages :: "page router \<Rightarrow> page option list" where
  "pages s =
     map (\<lambda>(entry, index). map_option (\<lambda>pg. (clonePage pg)\<lparr>obsolete := Some (index > pageIndex s)\<rparr>) entry)
       (zip (internalPages s) [0 ..< length (internalPages s)])"

subsection \<open>Committing a page\<close>

definition replaceState :: "page router \<Rightarrow> page \<Rightarrow> bool \<Rightarrow> page router" where
  "replaceState s pg preserveURL =
     s\<lparr>internalPages := assignAt (internalPages s) (pageIndex s) pg,
       windowHref := (if \<not> isSSR s \<and> \<not> preserveURL then href (location pg) else windowHref s)\<rparr>"

definition pushState :: "page router \<Rightarrow> page \<Rightarrow> page router" where
  "pushState s pg =
     s\<lparr>pageIndex := pageIndex s + 1,
       internalPages := assignAt (setLength (internalPages s) (pageIndex s + 1 + 1)) (pageIndex s + 1) pg,
       windowHref := (if \<not> isSSR s then href (location pg) else windowHref s)\<rparr>"

text \<open>
  \<^verbatim>\<open>saveScrollPositions\<close> stores the positions of the scroll regions in a copy of the current
  page; without a current page the copy has no location and \<^verbatim>\<open>replaceState\<close> throws.
\<close>

definition saveScrollPositions :: "page router \<Rightarrow> error + page router" where
  "saveScrollPositions s =
     (if isSSR s then Inr s
      else (case currentPage s of
              None \<Rightarrow> Inl TypeError
            | Some pg \<Rightarrow> Inr (replaceState s (pg\<lparr>scrollRegions := Some (scrollPositions s)\<rparr>) False)))"

definition resetScrollPositions :: "page router \<Rightarrow> error + page router" where
  "resetScrollPositions s =
     (if isSSR s then Inr s
      else saveScrollPositions (s\<lparr>scrollPositions := map (\<lambda>position. (0, 0)) (scrollPositions s)\<rparr>))"

record setPageOptions =
  optReplace :: bool
  optPreserveScroll :: bool
  optPreserveURL :: bool
  optFragmentName :: "string option"

definition defaultSetPageOptions :: setPageOptions where
  "defaultSetPageOptions =
     \<lparr>optReplace = False, optPreserveScroll = False, optPreserveURL = False, optFragmentName = None\<rparr>"

definition lazyFragment :: "fragmentsOptions \<Rightarrow> string option \<Rightarrow> fragmentsOptions" where
  "lazyFragment options fragmentName =
     (case fragmentName of
        None \<Rightarrow> options
      | Some n \<Rightarrow>
          if n = [] then options
          else options(n := Some
            ((case options n of
                None \<Rightarrow> \<lparr>stacked = Unset, modal = Unset, inert = Unset, lazy = Unset\<rparr>
              | Some ro \<Rightarrow> ro)\<lparr>lazy := Is True\<rparr>)))"

text \<open>
  The page merged with its base, when it has one: the base takes the visit of the page and
  is the current side of the merge, the page without its base the incoming side.
\<close>

definition withBase :: "page \<Rightarrow> fragmentsOptions \<Rightarrow> error + page" where
  "withBase pg options =
     (case base pg of
        None \<Rightarrow> Inr pg
      | Some b \<Rightarrow> snd (mergePages (Some (b\<lparr>visit := visit pg\<rparr>)) (pg\<lparr>base := None\<rparr>) options))"

text \<open>
  The choice of \<^verbatim>\<open>setPage\<close> between replacing the current entry, overwriting the previous
  one and going back, and pushing a new entry.
\<close>

definition commitPage :: "page router \<Rightarrow> page \<Rightarrow> bool \<Rightarrow> setPageOptions \<Rightarrow> page router" where
  "commitPage s nextPage initialVisit options =
     (if initialVisit \<or> optReplace options \<or> optPreserveURL options
         \<or> (\<not> isSSR s \<and> href (location nextPage) = windowHref s)
      then replaceState s nextPage (optPreserveURL options)
      else (case previousPage s of
              Some previous \<Rightarrow>
                if href (location nextPage) = href (location previous)
                then s\<lparr>internalPages :=
                         assignAt (internalPages s) (pageIndex s - 1) (nextPage\<lparr>visit := visit previous\<rparr>),
                       historyBack := historyBack s + 1\<rparr>
                else pushState s nextPage
            | None \<Rightarrow> pushState s nextPage))"

text \<open>
  The steps of \<^verbatim>\<open>setPage\<close>.  The current page is written back as \<^verbatim>\<open>mergePages\<close> left it;
  the merged page gets empty scroll regions and remembered state when it has none; after
  the commit the scroll positions are reset unless preserved, and \<^verbatim>\<open>navigate\<close> is emitted
  unless this is the first page.
\<close>

definition writeBack :: "page router \<Rightarrow> page option \<Rightarrow> page router" where
  "writeBack s current =
     (case current of
        None \<Rightarrow> s
      | Some c \<Rightarrow> s\<lparr>internalPages := assignAt (internalPages s) (pageIndex s) c\<rparr>)"

definition withDefaults :: "page \<Rightarrow> page" where
  "withDefaults merged =
     merged\<lparr>scrollRegions := (case scrollRegions merged of None \<Rightarrow> Some [] | Some r \<Rightarrow> Some r),
            rememberedState := (case rememberedState merged of None \<Rightarrow> Some [] | Some r \<Rightarrow> Some r)\<rparr>"

definition afterCommit :: "page router \<Rightarrow> bool \<Rightarrow> bool \<Rightarrow> error option \<times> page router" where
  "afterCommit s initialVisit preserveScroll =
     (case (if preserveScroll then Inr s else resetScrollPositions s) of
        Inl e \<Rightarrow> (Some e, s)
      | Inr s' \<Rightarrow>
          if initialVisit then (None, s')
          else (None, snd (routerEmit s' ''navigate''
                  (case currentPage s' of None \<Rightarrow> None | Some c \<Rightarrow> visit c) NoPriority)))"

text \<open>
  \<^verbatim>\<open>setPage\<close> up to its emission of \<^verbatim>\<open>navigate\<close> (what follows is the timer that reloads
  deferred properties).  It answers with the error, if merging threw, and the router as it
  then is.
\<close>

definition setPage :: "page router \<Rightarrow> page \<Rightarrow> setPageOptions \<Rightarrow> error option \<times> page router" where
  "setPage s pg options =
     (let initialVisit = (currentPage s = None);
          frOptions = lazyFragment (fragmentOptions s) (optFragmentName options)
      in case withBase pg frOptions of
           Inl e \<Rightarrow> (Some e, s)
         | Inr pageWithBase \<Rightarrow>
             (case mergePages (currentPage s)
                     (transformPagePropertyKeys pageWithBase (transformServerKey s)) frOptions of
                (current', Inl e) \<Rightarrow> (Some e, writeBack s current')
              | (current', Inr merged) \<Rightarrow>
                  afterCommit
                    (commitPage (writeBack s current') (withDefaults merged) initialVisit options)
                    initialVisit (optPreserveScroll options)))"

subsection \<open>A visit\<close>

text \<open>
  The options of \<^verbatim>\<open>visit\<close> that steer the router, after their defaults.  A preserve option is a
  boolean, the word \<^verbatim>\<open>errors\<close>, or a predicate on the next page.
\<close>

datatype preserveOption = Preserve bool | PreserveOnErrors | PreserveWhen "page \<Rightarrow> bool"

record visitOptions =
  viaReplace :: bool
  viaBackground :: bool
  viaPreserveScroll :: preserveOption
  viaPreserveState :: preserveOption
  viaPreserveURL :: preserveOption
  viaFragmentName :: "string option"
  viaErrorBag :: string
  viaEvents :: "string \<Rightarrow> detail listener option"

text \<open>\<^verbatim>\<open>Object.keys(value).length > 0\<close> for a property value or \<^verbatim>\<open>{}\<close> in its place.\<close>

fun hasKeys :: "jsvalue option \<Rightarrow> bool" where
  "hasKeys (Some (JObj es)) = (es \<noteq> [])"
| "hasKeys (Some (JArr xs)) = (xs \<noteq> [])"
| "hasKeys (Some (JStr str)) = (str \<noteq> [])"
| "hasKeys (Some (JFileList ns)) = (ns \<noteq> [])"
| "hasKeys _ = False"

definition errorsOf :: "page \<Rightarrow> jsvalue option" where
  "errorsOf pg =
     (case lookup (pageInfo.properties pg) ''__errors'' of
        None \<Rightarrow> None
      | Some v \<Rightarrow> if truthy v then Some v else None)"

definition resolvePreserveOption :: "preserveOption \<Rightarrow> page \<Rightarrow> bool" where
  "resolvePreserveOption v pg =
     (case v of
        PreserveWhen f \<Rightarrow> f pg
      | PreserveOnErrors \<Rightarrow> hasKeys (errorsOf pg)
      | Preserve b \<Rightarrow> b)"

text \<open>\<^verbatim>\<open>createVisit\<close>: a new visit object with the given id (the source draws it at random).\<close>

definition createVisit ::
  "'p router \<Rightarrow> string \<Rightarrow> location \<Rightarrow> routeMethod \<Rightarrow> visitOptions \<Rightarrow> 'p router \<times> visitRef" where
  "createVisit s newId target theMethod options =
     (s\<lparr>visits := visits s @
          [\<lparr>completed = False, cancelled = False, interrupted = False,
            visitId = newId, visitHref = href target, visitHash = hash target,
            visitMethod = theMethod, replace = viaReplace options,
            background = viaBackground options, cancelToken = None,
            visitEvents = viaEvents options\<rparr>]\<rparr>,
      length (visits s))"

text \<open>
  What the request of a visit comes back with: a response with a success status, carrying a
  page when it has the protocol header; or a failure, whose response (if any) carries a
  page when it has the protocol header, else is a redirect when its status is 409.
\<close>

datatype failure = FailedWithPage page | Conflict location | OtherResponse | NoResponse

datatype response = Succeeded "page option" | Failed failure

definition priorityIn :: "visitOptions \<Rightarrow> string \<Rightarrow> detail priority" where
  "priorityIn options evName =
     (case viaEvents options evName of None \<Rightarrow> NoPriority | Some l \<Rightarrow> OnePriority l)"

text \<open>
  \<^verbatim>\<open>visit\<close> is asynchronous.  It runs without interruption from one \<^verbatim>\<open>await\<close> to the next, and
  while it waits other calls and continuations run.  Its parts are given one by one.  An
  emission is logged when \<^verbatim>\<open>emit\<close> is called, with the listeners' results it will have.

  The first part, from the call to the emission of \<^verbatim>\<open>before\<close>: the visit is created and
  \<^verbatim>\<open>before\<close> is emitted for it.  The answer says whether the emission will allow the visit.
\<close>

definition visitBefore ::
  "page router \<Rightarrow> string \<Rightarrow> location \<Rightarrow> routeMethod \<Rightarrow> visitOptions
     \<Rightarrow> page router \<times> visitRef \<times> bool" where
  "visitBefore s newId target theMethod options =
     (case createVisit s newId target theMethod options of
        (s1, ref) \<Rightarrow>
          (case routerEmit s1 ''before'' (Some ref) (priorityIn options ''before'') of
             (allowed, s2) \<Rightarrow> (s2, ref, truthy allowed)))"

text \<open>
  \<^verbatim>\<open>if (this.activeVisit) { this.cancelVisit(this.activeVisit.id, true) }\<close>, not awaited:
  \<^verbatim>\<open>cancelVisit\<close> runs up to its emission of \<^verbatim>\<open>cancel\<close>, and the visit it acted on is noted
  as waiting for its \<^verbatim>\<open>finish\<close>.
\<close>

definition interruptActive :: "'p router \<Rightarrow> 'p router" where
  "interruptActive s =
     (case activeVisit s of
        None \<Rightarrow> s
      | Some active \<Rightarrow>
          (case visitAt s active of
             None \<Rightarrow> s
           | Some a \<Rightarrow>
               (case cancelVisitBegin s (visitId a) True of
                  (s', None) \<Rightarrow> s'
                | (s', Some c) \<Rightarrow> s'\<lparr>unfinished := unfinished s' @ [c]\<rparr>)))"

text \<open>
  The second part, entered when the emission of \<^verbatim>\<open>before\<close> has allowed the visit, up to the
  emission of \<^verbatim>\<open>start\<close>.  A visit that is not a background visit interrupts the active visit,
  saves the scroll positions, gets its cancel token and becomes the active visit.  The
  answer carries the error when saving the scroll positions throws.  The reference is one
  that \<^verbatim>\<open>createVisit\<close> has returned; for any other the router is left as it is.
\<close>

definition visitStart :: "page router \<Rightarrow> visitRef \<Rightarrow> visitOptions \<Rightarrow> error option \<times> page router" where
  "visitStart s ref options =
     (case visitAt s ref of
        None \<Rightarrow> (Some TypeError, s)
      | Some v \<Rightarrow>
          if background v then
            (None, snd (routerEmit s ''start'' (Some ref) (priorityIn options ''start'')))
          else
            (let s3 = interruptActive s
             in case saveScrollPositions s3 of
                  Inl e \<Rightarrow> (Some e, s3)
                | Inr s4 \<Rightarrow>
                    (let s5 = s4\<lparr>visits := (visits s4)[ref := (visits s4 ! ref)\<lparr>cancelToken := Some False\<rparr>],
                                activeVisit := Some ref\<rparr>
                     in (None, snd (routerEmit s5 ''start'' (Some ref) (priorityIn options ''start''))))))"

text \<open>
  The second part of \<^verbatim>\<open>cancelVisit\<close> for every visit that waits for it: the emissions of
  \<^verbatim>\<open>finish\<close> that are still to come.
\<close>

definition runUnfinished :: "'p router \<Rightarrow> 'p router" where
  "runUnfinished s = (foldl cancelVisitEnd s (unfinished s))\<lparr>unfinished := []\<rparr>"

text \<open>
  \<^verbatim>\<open>visit\<close> from the answer of the request to its end: the page of a successful response is
  committed with the options of the visit, the page of a failed response with the defaults
  of \<^verbatim>\<open>setPage\<close>; then the visit is finished.
\<close>

definition visitSettle ::
  "page router \<Rightarrow> visitRef \<Rightarrow> location \<Rightarrow> visitOptions \<Rightarrow> response \<Rightarrow> page router" where
  "visitSettle s ref target options answer =
     (let thrown = (\<lambda>s'. snd (routerEmit s' ''exception'' (Some ref) (priorityIn options ''exception'')));
          succeeded = (\<lambda>s'. snd (routerEmit s' ''success'' (Some ref) (priorityIn options ''success'')));
          settled =
            (case answer of
               Succeeded payload \<Rightarrow>
                 if viaBackground options then succeeded s
                 else
                   (case payload of
                      None \<Rightarrow> thrown s
                    | Some received \<Rightarrow>
                        (let nextPage = received\<lparr>visit := Some ref\<rparr>;
                             preserveScroll = resolvePreserveOption (viaPreserveScroll options) nextPage;
                             nextPage' =
                               (if hash target \<noteq> [] \<and> hash (location nextPage) = []
                                   \<and> href target = href (location nextPage)
                                then nextPage\<lparr>location := (location nextPage)\<lparr>hash := hash target\<rparr>\<rparr>
                                else nextPage)
                         in case setPage s nextPage'
                                   \<lparr>optReplace = viaReplace options,
                                    optPreserveScroll = preserveScroll,
                                    optPreserveURL = resolvePreserveOption (viaPreserveURL options) nextPage',
                                    optFragmentName = viaFragmentName options\<rparr> of
                              (Some e, s1) \<Rightarrow> thrown s1
                            | (None, s1) \<Rightarrow>
                                if hasKeys (case currentPage s1 of None \<Rightarrow> None | Some c \<Rightarrow> errorsOf c)
                                then snd (routerEmit s1 ''error'' (Some ref) (priorityIn options ''error''))
                                else succeeded s1))
             | Failed (FailedWithPage received) \<Rightarrow> snd (setPage s received defaultSetPageOptions)
             | Failed (Conflict redirectLocation) \<Rightarrow>
                 s\<lparr>redirectedTo := Some (href redirectLocation)\<rparr>
             | Failed OtherResponse \<Rightarrow>
                 if viaBackground options
                 then snd (routerEmit s ''error'' (Some ref) (priorityIn options ''error''))
                 else thrown (snd (routerEmit s ''invalid'' (Some ref) (priorityIn options ''invalid'')))
             | Failed NoResponse \<Rightarrow> thrown s)
      in finishVisit settled ref)"

text \<open>
  A visit that runs from its call to its end with no other call in between: while it awaits
  the emissions of \<^verbatim>\<open>before\<close> and of \<^verbatim>\<open>start\<close>, the interrupted visits that wait for their
  \<^verbatim>\<open>finish\<close> emit it.  The visit ends after \<^verbatim>\<open>before\<close> when the emission does not allow it,
  and with an error when the second part throws.
\<close>

definition visit ::
  "page router \<Rightarrow> string \<Rightarrow> location \<Rightarrow> routeMethod \<Rightarrow> visitOptions \<Rightarrow> response
     \<Rightarrow> page router \<times> visitRef" where
  "visit s newId target theMethod options answer =
     (case visitBefore s newId target theMethod options of
        (s1, ref, allowed) \<Rightarrow>
          if \<not> allowed then (runUnfinished s1, ref)
          else
            (case visitStart (runUnfinished s1) ref options of
               (Some e, s2) \<Rightarrow> (s2, ref)
             | (None, s2) \<Rightarrow> (visitSettle (runUnfinished s2) ref target options answer, ref)))"

text \<open>
  What can happen at the router, one uninterrupted piece at a time: a call of \<^verbatim>\<open>visit\<close> (its
  first part), a visit continuing after \<^verbatim>\<open>before\<close>, the answer to a request, a call of
  \<^verbatim>\<open>cancelVisit\<close> (through \<^verbatim>\<open>visit.cancel()\<close> or \<^verbatim>\<open>visit.interrupt()\<close>) and its continuation, a
  call of \<^verbatim>\<open>finishVisit\<close>, a call of \<^verbatim>\<open>setPage\<close>.  The router goes through a sequence of
  them; no order among them is assumed.
\<close>

datatype step =
    VisitCalled string location routeMethod visitOptions
  | BeforePassed visitRef visitOptions
  | Answered visitRef location visitOptions response
  | CancelCalled string bool
  | CancelResumed visitRef
  | FinishCalled visitRef
  | PageSet page setPageOptions

definition perform :: "step \<Rightarrow> page router \<Rightarrow> page router" where
  "perform st s =
     (case st of
        VisitCalled newId target theMethod options \<Rightarrow>
          fst (visitBefore s newId target theMethod options)
      | BeforePassed ref options \<Rightarrow> snd (visitStart s ref options)
      | Answered ref target options answer \<Rightarrow> visitSettle s ref target options answer
      | CancelCalled theId interrupt \<Rightarrow>
          (case cancelVisitBegin s theId interrupt of
             (s', None) \<Rightarrow> s'
           | (s', Some c) \<Rightarrow> s'\<lparr>unfinished := unfinished s' @ [c]\<rparr>)
      | CancelResumed ref \<Rightarrow>
          (if ref \<in> set (unfinished s)
           then (cancelVisitEnd s ref)\<lparr>unfinished := remove1 ref (unfinished s)\<rparr>
           else s)
      | FinishCalled ref \<Rightarrow> finishVisit s ref
      | PageSet pg options \<Rightarrow> snd (setPage s pg options))"

definition after :: "step list \<Rightarrow> page router \<Rightarrow> page router" where
  "after steps s = foldl (\<lambda>s' st. perform st s') s steps"

text \<open>
  The constructor: an initial visit that becomes the active one, and the initial page set
  with it.
\<close>

definition newRouter ::
  "fragmentsOptions \<Rightarrow> (string \<Rightarrow> string) option \<Rightarrow> bool \<Rightarrow> string \<Rightarrow> (int \<times> int) list
     \<Rightarrow> string \<Rightarrow> page \<Rightarrow> error option \<times> page router" where
  "newRouter frOptions transform ssr browserHref regions newId initialPage =
     (let blank = \<lparr>internalPages = [], pageIndex = 0, activeVisit = None, visits = [],
                   emitter = createEmitter routerEvents, emitted = [], unfinished = [],
                   fragmentOptions = frOptions, transformServerPropertyKey = transform,
                   isSSR = ssr, windowHref = browserHref, scrollPositions = regions,
                   historyBack = 0, redirectedTo = None\<rparr>;
          created = blank\<lparr>visits :=
            [\<lparr>completed = False, cancelled = False, interrupted = False,
              visitId = newId, visitHref = href (location initialPage),
              visitHash = hash (location initialPage), visitMethod = GET, replace = False,
              background = False, cancelToken = None, visitEvents = (\<lambda>evName. None)\<rparr>],
            activeVisit := Some 0\<rparr>
      in setPage created (initialPage\<lparr>visit := Some 0\<rparr>) defaultSetPageOptions)"


subsection \<open>The contract of cancelling\<close>

text \<open>
  Claim C8.  \<^verbatim>\<open>cancelVisit(id, interrupt)\<close> leaves the router as it is, and emits nothing,
  unless the active visit has this id and is neither completed nor cancelled.  When it
  acts, the cancel token of the visit (if it has one) is cancelled, the visit gets
  \<^verbatim>\<open>cancelled = true\<close> and \<^verbatim>\<open>interrupted = interrupt\<close>, and \<^verbatim>\<open>cancel\<close> then \<^verbatim>\<open>finish\<close> are
  emitted for it; nothing else changes.
\<close>

theorem cancelVisit_contract:
  "(\<not> cancellable s theId \<longrightarrow> cancelVisit s theId interrupt = s)
   \<and> (\<forall>ref v. activeVisit s = Some ref \<and> visitAt s ref = Some v \<and> visitId v = theId
          \<and> \<not> completed v \<and> \<not> cancelled v \<longrightarrow>
        cancelVisit s theId interrupt =
          s\<lparr>visits := (visits s)[ref := v\<lparr>completed := False, cancelled := True,
                 interrupted := interrupt,
                 cancelToken := map_option (\<lambda>called. True) (cancelToken v)\<rparr>],
            emitted := emitted s @
              [(''cancel'', \<lparr>subject = Some ref, flagsThen = map visitFlags.truncate
                   ((visits s)[ref := v\<lparr>completed := False, cancelled := True,
                      interrupted := interrupt,
                      cancelToken := map_option (\<lambda>called. True) (cancelToken v)\<rparr>])\<rparr>),
               (''finish'', \<lparr>subject = Some ref, flagsThen = map visitFlags.truncate
                   ((visits s)[ref := v\<lparr>completed := False, cancelled := True,
                      interrupted := interrupt,
                      cancelToken := map_option (\<lambda>called. True) (cancelToken v)\<rparr>])\<rparr>)]\<rparr>)"
proof -
  have a: "\<not> cancellable s theId \<Longrightarrow> cancelVisit s theId interrupt = s"
    by (auto simp: cancellable_def cancelVisit_def cancelVisitBegin_def split: option.splits)
  have b: "cancelVisit s theId interrupt =
          s\<lparr>visits := (visits s)[ref := v\<lparr>completed := False, cancelled := True,
                 interrupted := interrupt,
                 cancelToken := map_option (\<lambda>called. True) (cancelToken v)\<rparr>],
            emitted := emitted s @
              [(''cancel'', \<lparr>subject = Some ref, flagsThen = map visitFlags.truncate
                   ((visits s)[ref := v\<lparr>completed := False, cancelled := True,
                      interrupted := interrupt,
                      cancelToken := map_option (\<lambda>called. True) (cancelToken v)\<rparr>])\<rparr>),
               (''finish'', \<lparr>subject = Some ref, flagsThen = map visitFlags.truncate
                   ((visits s)[ref := v\<lparr>completed := False, cancelled := True,
                      interrupted := interrupt,
                      cancelToken := map_option (\<lambda>called. True) (cancelToken v)\<rparr>])\<rparr>)]\<rparr>"
    if "activeVisit s = Some ref" "visitAt s ref = Some v" "visitId v = theId"
       "\<not> completed v" "\<not> cancelled v" for ref v
  proof -
    have r: "ref < length (visits s)" using that(2) by (simp add: visitAt_def split: if_splits)
    show ?thesis
      using that r
      by (simp add: cancelVisit_def cancelVisitBegin_def cancelVisitEnd_def routerEmit_def
          detailNow_def visitAt_def Let_def)
  qed
  show ?thesis using a b by blast
qed

subsection \<open>A new visit interrupts the active one\<close>

lemma routerEmit_fields [simp]:
  "visits (snd (routerEmit s n about l)) = visits s"
  "activeVisit (snd (routerEmit s n about l)) = activeVisit s"
  "internalPages (snd (routerEmit s n about l)) = internalPages s"
  "pageIndex (snd (routerEmit s n about l)) = pageIndex s"
  "emitted (snd (routerEmit s n about l)) = emitted s @ [(n, detailNow s about)]"
  by (simp_all add: routerEmit_def)

lemma saveScrollPositions_fields:
  assumes "saveScrollPositions s = Inr s'"
  shows "visits s' = visits s" "emitted s' = emitted s" "activeVisit s' = activeVisit s"
    "unfinished s' = unfinished s" "emitter s' = emitter s"
  using assms
  by (auto simp: saveScrollPositions_def replaceState_def split: if_splits option.splits)

lemma cancelVisitBegin_acts:
  assumes "activeVisit s = Some a" "visitAt s a = Some va" "\<not> completed va" "\<not> cancelled va"
  shows "cancelVisitBegin s (visitId va) interrupt =
     (s\<lparr>visits := (visits s)[a := va\<lparr>completed := False, cancelled := True,
            interrupted := interrupt,
            cancelToken := map_option (\<lambda>called. True) (cancelToken va)\<rparr>],
        emitted := emitted s @
          [(''cancel'', \<lparr>subject = Some a, flagsThen = map visitFlags.truncate
               ((visits s)[a := va\<lparr>completed := False, cancelled := True,
                  interrupted := interrupt,
                  cancelToken := map_option (\<lambda>called. True) (cancelToken va)\<rparr>])\<rparr>)]\<rparr>,
      Some a)"
  using assms
  by (simp add: cancelVisitBegin_def routerEmit_def detailNow_def Let_def)

lemma finishVisit_done:
  "visitAt s a = Some va \<Longrightarrow> completed va \<or> cancelled va \<Longrightarrow> finishVisit s a = s"
  by (simp add: finishVisit_def)


lemma replaceState_visits [simp]: "visits (replaceState s pg u) = visits s"
  by (simp add: replaceState_def)

lemma pushState_visits [simp]: "visits (pushState s pg) = visits s"
  by (simp add: pushState_def)

lemma commitPage_visits [simp]: "visits (commitPage s pg i opts) = visits s"
  by (simp add: commitPage_def split: option.splits)

lemma saveScrollPositions_visits: "saveScrollPositions s = Inr s' \<Longrightarrow> visits s' = visits s"
  by (auto simp: saveScrollPositions_def split: if_splits option.splits)

lemma resetScrollPositions_visits: "resetScrollPositions s = Inr s' \<Longrightarrow> visits s' = visits s"
  by (auto simp: resetScrollPositions_def dest: saveScrollPositions_visits split: if_splits)

lemma writeBack_visits [simp]: "visits (writeBack s c) = visits s"
  by (simp add: writeBack_def split: option.splits)

lemma afterCommit_visits [simp]: "visits (snd (afterCommit s i p)) = visits s"
  by (auto simp: afterCommit_def dest: resetScrollPositions_visits split: sum.splits)

lemma setPage_visits [simp]: "visits (snd (setPage s pg opts)) = visits s"
  by (simp add: setPage_def Let_def split: sum.splits prod.splits)

text \<open>The flags of a cancelled visit are left alone by every part of the router.\<close>

lemma flagsAt_same: "visits t = visits s \<Longrightarrow> flagsAt t a = flagsAt s a"
  by (simp add: flagsAt_def visitAt_def)

lemma flagsAt_update:
  "ref < length (visits s) \<Longrightarrow>
   flagsAt (s\<lparr>visits := (visits s)[ref := v]\<rparr>) a
     = (if a = ref then Some (completed v, cancelled v, interrupted v) else flagsAt s a)"
  by (simp add: flagsAt_def visitAt_def)

lemma cancelVisitBegin_flags:
  assumes "flagsAt s a = Some (c, True, i)"
  shows "flagsAt (fst (cancelVisitBegin s theId interrupt)) a = Some (c, True, i)"
proof (cases "cancellable s theId")
  case False
  then have "fst (cancelVisitBegin s theId interrupt) = s"
    by (auto simp: cancelVisitBegin_def cancellable_def split: option.splits)
  then show ?thesis using assms by simp
next
  case True
  then obtain ref v where r: "activeVisit s = Some ref" "visitAt s ref = Some v"
      "visitId v = theId" "\<not> completed v" "\<not> cancelled v"
    by (auto simp: cancellable_def split: option.splits)
  have ne: "a \<noteq> ref" using assms r by (auto simp: flagsAt_def)
  have lt: "ref < length (visits s)" using r(2) by (auto simp: visitAt_def split: if_splits)
  have "visits (fst (cancelVisitBegin s theId interrupt))
      = (visits s)[ref := v\<lparr>completed := False, cancelled := True, interrupted := interrupt,
                            cancelToken := map_option (\<lambda>called. True) (cancelToken v)\<rparr>]"
    using r by (simp add: cancelVisitBegin_def Let_def)
  then have "flagsAt (fst (cancelVisitBegin s theId interrupt)) a = flagsAt s a"
    using ne by (simp add: flagsAt_def visitAt_def)
  then show ?thesis using assms by simp
qed

lemma flagsAt_unfinished [simp]: "flagsAt (s\<lparr>unfinished := u\<rparr>) a = flagsAt s a"
  by (simp add: flagsAt_def visitAt_def)

lemma cancelVisitBegin_noted:
  assumes "flagsAt s a = Some (c, True, i)"
  shows "flagsAt (case cancelVisitBegin s theId interrupt of
                   (s', None) \<Rightarrow> s'
                 | (s', Some r) \<Rightarrow> s'\<lparr>unfinished := unfinished s' @ [r]\<rparr>) a = Some (c, True, i)"
proof -
  obtain s' r where b: "cancelVisitBegin s theId interrupt = (s', r)"
    by (cases "cancelVisitBegin s theId interrupt")
  have "flagsAt s' a = Some (c, True, i)"
    using cancelVisitBegin_flags [OF assms, of theId interrupt] b by simp
  then show ?thesis by (cases r) (simp_all add: b)
qed

lemma finishVisit_flags:
  assumes "flagsAt s a = Some (c, True, i)"
  shows "flagsAt (finishVisit s ref) a = Some (c, True, i)"
proof (cases "visitAt s ref")
  case None
  then show ?thesis using assms by (simp add: finishVisit_def)
next
  case (Some v)
  show ?thesis
  proof (cases "completed v \<or> cancelled v")
    case True
    then show ?thesis using assms Some by (simp add: finishVisit_def)
  next
    case False
    have ne: "a \<noteq> ref" using assms Some False by (auto simp: flagsAt_def)
    have "visits (finishVisit s ref)
        = (visits s)[ref := v\<lparr>completed := True, cancelled := False, interrupted := False\<rparr>]"
      using Some False by (simp add: finishVisit_def Let_def)
    then have "flagsAt (finishVisit s ref) a = flagsAt s a"
      using ne by (simp add: flagsAt_def visitAt_def)
    then show ?thesis using assms by simp
  qed
qed

lemma cancelVisitEnd_visits [simp]: "visits (cancelVisitEnd s ref) = visits s"
  by (simp add: cancelVisitEnd_def split: option.splits)

lemma interruptActive_flags:
  assumes "flagsAt s a = Some (c, True, i)"
  shows "flagsAt (interruptActive s) a = Some (c, True, i)"
proof -
  have "flagsAt (case cancelVisitBegin s x True of
                   (s', None) \<Rightarrow> s'
                 | (s', Some r) \<Rightarrow> s'\<lparr>unfinished := unfinished s' @ [r]\<rparr>) a = Some (c, True, i)" for x
    by (rule cancelVisitBegin_noted [OF assms])
  then show ?thesis using assms by (simp add: interruptActive_def split: option.splits)
qed

lemma visitBefore_flags:
  assumes "flagsAt s a = Some (c, True, i)"
  shows "flagsAt (fst (visitBefore s newId target theMethod options)) a = Some (c, True, i)"
  using assms
  by (auto simp: visitBefore_def createVisit_def split_beta flagsAt_def visitAt_def nth_append
           split: if_splits)

lemma visitStart_flags:
  assumes "flagsAt s a = Some (c, True, i)"
  shows "flagsAt (snd (visitStart s ref options)) a = Some (c, True, i)"
proof (cases "visitAt s ref")
  case None
  then show ?thesis using assms by (simp add: visitStart_def)
next
  case (Some v)
  show ?thesis
  proof (cases "background v")
    case True
    have "flagsAt (snd (routerEmit s ''start'' (Some ref) (priorityIn options ''start''))) a = flagsAt s a"
      by (rule flagsAt_same) simp
    then show ?thesis
      using assms Some True by (simp add: visitStart_def)
  next
    case fore: False
    note i3 = interruptActive_flags [OF assms]
    show ?thesis
    proof (cases "saveScrollPositions (interruptActive s)")
      case (Inl e)
      then show ?thesis using Some fore i3 by (simp add: visitStart_def Let_def)
    next
      case (Inr s4)
      have v4: "visits s4 = visits (interruptActive s)"
        by (rule saveScrollPositions_visits [OF Inr])
      have f4: "flagsAt s4 a = Some (c, True, i)" using i3 flagsAt_same [OF v4, of a] by simp
      let ?s5 = "s4\<lparr>visits := (visits s4)[ref := (visits s4 ! ref)\<lparr>cancelToken := Some False\<rparr>],
                        activeVisit := Some ref\<rparr>"
      have "flagsAt ?s5 a = flagsAt s4 a"
        by (cases "a = ref") (auto simp: flagsAt_def visitAt_def)
      then have f5: "flagsAt ?s5 a = Some (c, True, i)"
        using f4 by simp
      have "flagsAt (snd (routerEmit ?s5 ''start'' (Some ref) (priorityIn options ''start''))) a
          = flagsAt ?s5 a"
        by (rule flagsAt_same) simp
      then show ?thesis
        using Some fore Inr f5 by (simp add: visitStart_def Let_def)
    qed
  qed
qed

lemma visitSettle_finish:
  "\<exists>t. visitSettle s ref target options answer = finishVisit t ref \<and> visits t = visits s"
proof -
  have v: "\<And>p :: error option \<times> page router. visits (snd p) = visits s \<Longrightarrow>
      visits (case p of (Some e, s1) \<Rightarrow> f s1 | (None, s1) \<Rightarrow> g s1) = visits s"
    if "\<And>s1. visits s1 = visits s \<Longrightarrow> visits (f s1) = visits s"
       "\<And>s1. visits s1 = visits s \<Longrightarrow> visits (g s1) = visits s" for f g
    using that by (auto split: prod.splits option.splits)
  show ?thesis
    unfolding visitSettle_def Let_def
    apply (rule exI, rule conjI, rule refl)
    apply (cases answer)
    subgoal for payload
      apply (cases payload)
       apply simp
      apply (simp only: response.case option.case)
      apply (cases "viaBackground options")
       apply simp
      apply (simp only: if_False)
      apply (rule v)
        apply simp
       apply simp
      apply simp
      done
    subgoal for f
      by (cases f) simp_all
    done
qed

lemma visitSettle_flags:
  assumes "flagsAt s a = Some (c, True, i)"
  shows "flagsAt (visitSettle s ref target options answer) a = Some (c, True, i)"
proof -
  obtain t where t: "visitSettle s ref target options answer = finishVisit t ref"
      "visits t = visits s"
    using visitSettle_finish by blast
  have "flagsAt t a = Some (c, True, i)" using assms flagsAt_same [OF t(2), of a] by simp
  then show ?thesis unfolding t(1) by (rule finishVisit_flags)
qed

lemma perform_flags:
  assumes "flagsAt s a = Some (c, True, i)"
  shows "flagsAt (perform st s) a = Some (c, True, i)"
proof (cases st)
  case (VisitCalled newId target theMethod options)
  then show ?thesis using visitBefore_flags [OF assms] by (simp add: perform_def)
next
  case (BeforePassed ref options)
  then show ?thesis using visitStart_flags [OF assms] by (simp add: perform_def)
next
  case (Answered ref target options answer)
  then show ?thesis using visitSettle_flags [OF assms] by (simp add: perform_def)
next
  case (CancelCalled theId interrupt)
  have "flagsAt (case cancelVisitBegin s theId interrupt of
                   (s', None) \<Rightarrow> s'
                 | (s', Some r) \<Rightarrow> s'\<lparr>unfinished := unfinished s' @ [r]\<rparr>) a = Some (c, True, i)"
    by (rule cancelVisitBegin_noted [OF assms])
  then show ?thesis using CancelCalled by (simp add: perform_def)
next
  case (CancelResumed ref)
  have "flagsAt ((cancelVisitEnd s ref)\<lparr>unfinished := u\<rparr>) a = flagsAt s a" for u
    using flagsAt_same [of "cancelVisitEnd s ref" s a] by simp
  then show ?thesis using assms CancelResumed by (simp add: perform_def)
next
  case (FinishCalled ref)
  then show ?thesis using finishVisit_flags [OF assms] by (simp add: perform_def)
next
  case (PageSet pg options)
  have "flagsAt (snd (setPage s pg options)) a = flagsAt s a"
    by (rule flagsAt_same) simp
  then show ?thesis using assms PageSet by (simp add: perform_def)
qed

lemma after_flags:
  "flagsAt s a = Some (c, True, i) \<Longrightarrow> flagsAt (after steps s) a = Some (c, True, i)"
  unfolding after_def
  by (induction steps arbitrary: s) (simp_all add: perform_flags)

text \<open>
  Claim C4, as amended.  Let visit \<open>a\<close> be the active visit, neither completed nor cancelled,
  when a visit \<open>b\<close> that is not a background visit has passed its \<^verbatim>\<open>before\<close> event and runs on
  to its \<^verbatim>\<open>start\<close> event.  In this part of \<^verbatim>\<open>visit\<close>, which nothing interrupts, \<^verbatim>\<open>cancel\<close> is
  emitted for \<open>a\<close> and then \<^verbatim>\<open>start\<close> for \<open>b\<close>, and nothing else.  Afterwards \<open>a\<close> is not
  completed, cancelled and interrupted (the flags are listed in this order); it was so
  already when \<^verbatim>\<open>start\<close> was emitted for \<open>b\<close>, as the detail of that emission shows; \<open>b\<close> is
  the active visit; and the flags of \<open>a\<close> stay so through every sequence of steps of the
  router that follows.
\<close>

theorem visit_interrupts_active:
  assumes active: "activeVisit s = Some a" "visitAt s a = Some va"
      and pending: "\<not> completed va" "\<not> cancelled va"
      and created: "visitAt s b = Some vb" "\<not> background vb"
      and started: "visitStart s b options = (None, s')"
  shows "flagsAt s' a = Some (False, True, True)
       \<and> activeVisit s' = Some b
       \<and> (\<exists>cancel start.
             emitted s' = emitted s @ [(''cancel'', cancel), (''start'', start)]
             \<and> subject cancel = Some a \<and> subject start = Some b
             \<and> cancelled (flagsThen start ! a) \<and> interrupted (flagsThen start ! a))
       \<and> (\<forall>steps. flagsAt (after steps s') a = Some (False, True, True))"
proof -
  have a_lt: "a < length (visits s)" and va: "visits s ! a = va"
    using active(2) by (auto simp: visitAt_def split: if_splits)
  have b_lt: "b < length (visits s)"
    using created(1) by (auto simp: visitAt_def split: if_splits)
  let ?va' = "va\<lparr>completed := False, cancelled := True, interrupted := True,
            cancelToken := map_option (\<lambda>called. True) (cancelToken va)\<rparr>"
  let ?s3 = "s\<lparr>visits := (visits s)[a := ?va'],
        emitted := emitted s @
          [(''cancel'', \<lparr>subject = Some a, flagsThen = map visitFlags.truncate
               ((visits s)[a := ?va'])\<rparr>)]\<rparr>"
  have cb: "cancelVisitBegin s (visitId va) True = (?s3, Some a)"
    by (rule cancelVisitBegin_acts [OF active pending])
  let ?s3u = "?s3\<lparr>unfinished := unfinished ?s3 @ [a]\<rparr>"
  have ia: "interruptActive s = ?s3u"
    by (simp only: interruptActive_def active option.case cb prod.case)
  obtain s4 where save: "saveScrollPositions ?s3u = Inr s4"
    using started created
    by (cases "saveScrollPositions ?s3u") (simp_all add: visitStart_def ia Let_def)
  let ?s5 = "s4\<lparr>visits := (visits s4)[b := (visits s4 ! b)\<lparr>cancelToken := Some False\<rparr>],
                activeVisit := Some b\<rparr>"
  have res: "s' = snd (routerEmit ?s5 ''start'' (Some b) (priorityIn options ''start''))"
    using started created save by (simp add: visitStart_def ia Let_def)
  note f4 = saveScrollPositions_fields [OF save]
  have v3: "visits ?s3u = (visits s)[a := ?va']"
    by simp
  have v5: "visits s' = (visits ?s3u)[b := (visits ?s3u ! b)\<lparr>cancelToken := Some False\<rparr>]"
    by (simp add: res f4)
  have len: "length (visits s') = length (visits s)"
    by (simp add: v5 v3)
  have flags: "flagsAt s' a = Some (False, True, True)"
    using a_lt b_lt by (simp add: flagsAt_def visitAt_def v5 v3 nth_list_update)
  have e: "emitted s' = emitted s @
      [(''cancel'', \<lparr>subject = Some a, flagsThen = map visitFlags.truncate ((visits s)[a := ?va'])\<rparr>),
       (''start'', detailNow ?s5 (Some b))]"
    by (simp add: res f4)
  have fl: "cancelled (flagsThen (detailNow ?s5 (Some b)) ! a)
      \<and> interrupted (flagsThen (detailNow ?s5 (Some b)) ! a)"
    using a_lt b_lt
    by (simp add: detailNow_def f4 v3 nth_list_update visitFlags.truncate_def)
  have act: "activeVisit s' = Some b" by (simp add: res)
  have log: "\<exists>cancel start.
             emitted s' = emitted s @ [(''cancel'', cancel), (''start'', start)]
             \<and> subject cancel = Some a \<and> subject start = Some b
             \<and> cancelled (flagsThen start ! a) \<and> interrupted (flagsThen start ! a)"
    using e fl by (simp add: detailNow_def)
  have later: "\<forall>steps. flagsAt (after steps s') a = Some (False, True, True)"
    using after_flags [OF flags] by simp
  show ?thesis using flags act log later by blast
qed

subsection \<open>Example routers\<close>

definition examplePage :: "string \<Rightarrow> page" where
  "examplePage h =
     \<lparr>location = \<lparr>href = h, hash = []\<rparr>, properties = [], visit = None,
      scrollRegions = None, rememberedState = None, fragments = [], base = None, obsolete = None\<rparr>"

definition exampleRouter :: "page router" where
  "exampleRouter =
     snd (newRouter (\<lambda>n. None) None False ''https://app.test/home'' [] ''v0''
            (examplePage ''https://app.test/home''))"

definition exampleOptions :: visitOptions where
  "exampleOptions =
     \<lparr>viaReplace = False, viaBackground = False, viaPreserveScroll = Preserve False,
      viaPreserveState = Preserve False, viaPreserveURL = Preserve False,
      viaFragmentName = None, viaErrorBag = [], viaEvents = (\<lambda>evName. None)\<rparr>"

lemma mergeFragments_empty: "mergeFragments [] [] opts = Inr []"
  by (simp add: mergeFragments_def mergeNames_def regionNames_def uniq_def getKeys_def)

lemma tpk_empty: "transformPropertyKeys [] t = []"
  by (simp add: transformPropertyKeys.simps fromEntries_def)

lemma exampleRouter_eq:
  "exampleRouter =
     \<lparr>internalPages = [Some ((examplePage ''https://app.test/home'')
          \<lparr>visit := Some 0, scrollRegions := Some [], rememberedState := Some []\<rparr>)],
      pageIndex = 0, activeVisit = Some 0,
      visits = [\<lparr>completed = False, cancelled = False, interrupted = False,
              visitId = ''v0'', visitHref = ''https://app.test/home'',
              visitHash = [], visitMethod = GET, replace = False,
              background = False, cancelToken = None, visitEvents = (\<lambda>evName. None)\<rparr>],
      emitter = createEmitter routerEvents, emitted = [], unfinished = [],
      fragmentOptions = (\<lambda>n. None), transformServerPropertyKey = None,
      isSSR = False, windowHref = ''https://app.test/home'', scrollPositions = [],
      historyBack = 0, redirectedTo = None\<rparr>"
  by (simp add: exampleRouter_def newRouter_def setPage_def Let_def withBase_def examplePage_def
      currentPage_def internalPage_def clonePage_def readAt_def lazyFragment_def
      defaultSetPageOptions_def mergePages_def transformPagePropertyKeys_def mapFragments_def
      assignPageToFragments_def mergeFragments_empty tpk_empty spread_def writeBack_def
      withDefaults_def commitPage_def replaceState_def assignAt_def afterCommit_def
      resetScrollPositions_def saveScrollPositions_def)

lemmas router_eval =
  visitBefore_def visitStart_def perform_def after_def flagsAt_def createVisit_def routerEmit_def emit_def emitLoop.simps listenersOf_def
  createEmitter_def routerEvents_def priorityIn_def priorityOf_def detailNow_def
  cancelVisitBegin_def cancelVisitEnd_def interruptActive_def visitAt_def saveScrollPositions_def currentPage_def
  internalPage_def clonePage_def readAt_def replaceState_def assignAt_def examplePage_def
  exampleOptions_def visitFlags.truncate_def Let_def

lemmas settle_eval =
  visit_def visitSettle_def runUnfinished_def finishVisit_def setPage_def withBase_def
  lazyFragment_def defaultSetPageOptions_def mergePages_def transformPagePropertyKeys_def
  mapFragments_def assignPageToFragments_def mergeFragments_empty tpk_empty spread_def
  writeBack_def withDefaults_def commitPage_def pushState_def setLength_def afterCommit_def
  resetScrollPositions_def previousPage_def internalPreviousPage_def pages_def
  resolvePreserveOption_def errorsOf_def pageInfo.truncate_def

definition busyRouter :: "page router" where
  "busyRouter = snd (visitStart (fst (visitBefore exampleRouter ''v1''
      \<lparr>href = ''https://app.test/users'', hash = []\<rparr> GET exampleOptions)) 1 exampleOptions)"

lemma busyRouter_eq:
  "busyRouter =
     \<lparr>internalPages =
        [Some ((examplePage ''https://app.test/home'')
          \<lparr>visit := Some 0, scrollRegions := Some [], rememberedState := Some []\<rparr>)],
      pageIndex = 0, activeVisit = Some (Suc 0),
      visits =
        [\<lparr>completed = False, cancelled = True, interrupted = True,
          visitId = ''v0'', visitHref = ''https://app.test/home'',
          visitHash = [], visitMethod = GET, replace = False,
          background = False, cancelToken = None, visitEvents = \<lambda>evName. None\<rparr>,
         \<lparr>completed = False, cancelled = False, interrupted = False,
          visitId = ''v1'', visitHref = ''https://app.test/users'',
          visitHash = [], visitMethod = GET, replace = False,
          background = False, cancelToken = Some False, visitEvents = \<lambda>evName. None\<rparr>],
      emitter = createEmitter routerEvents,
      emitted =
        [(''before'', \<lparr>subject = Some (Suc 0), flagsThen =
            [\<lparr>completed = False, cancelled = False, interrupted = False\<rparr>,
             \<lparr>completed = False, cancelled = False, interrupted = False\<rparr>]\<rparr>),
         (''cancel'', \<lparr>subject = Some 0, flagsThen =
            [\<lparr>completed = False, cancelled = True, interrupted = True\<rparr>,
             \<lparr>completed = False, cancelled = False, interrupted = False\<rparr>]\<rparr>),
         (''start'', \<lparr>subject = Some (Suc 0), flagsThen =
            [\<lparr>completed = False, cancelled = True, interrupted = True\<rparr>,
             \<lparr>completed = False, cancelled = False, interrupted = False\<rparr>]\<rparr>)],
      unfinished = [0], fragmentOptions = \<lambda>n. None,
      transformServerPropertyKey = None, isSSR = False,
      windowHref = ''https://app.test/home'', scrollPositions = [],
      historyBack = 0, redirectedTo = None\<rparr>"
  unfolding busyRouter_def exampleRouter_eq
  by (simp add: router_eval)

text \<open>
  The router after the visit \<open>v1\<close> has started and the interrupted initial visit has emitted
  its \<^verbatim>\<open>finish\<close>, at the moment a visit \<open>v2\<close> has been called and awaits its \<^verbatim>\<open>before\<close>
  event.
\<close>

definition startingRouter :: "page router" where
  "startingRouter = fst (visitBefore (runUnfinished busyRouter) ''v2''
      \<lparr>href = ''https://app.test/posts'', hash = []\<rparr> GET exampleOptions)"

lemma startingRouter_eq:
  "startingRouter =
     \<lparr>internalPages =
        [Some ((examplePage ''https://app.test/home'')
          \<lparr>visit := Some 0, scrollRegions := Some [], rememberedState := Some []\<rparr>)],
      pageIndex = 0, activeVisit = Some (Suc 0),
      visits =
        [\<lparr>completed = False, cancelled = True, interrupted = True,
          visitId = ''v0'', visitHref = ''https://app.test/home'',
          visitHash = [], visitMethod = GET, replace = False,
          background = False, cancelToken = None, visitEvents = \<lambda>evName. None\<rparr>,
         \<lparr>completed = False, cancelled = False, interrupted = False,
          visitId = ''v1'', visitHref = ''https://app.test/users'',
          visitHash = [], visitMethod = GET, replace = False,
          background = False, cancelToken = Some False, visitEvents = \<lambda>evName. None\<rparr>,
         \<lparr>completed = False, cancelled = False, interrupted = False,
          visitId = ''v2'', visitHref = ''https://app.test/posts'',
          visitHash = [], visitMethod = GET, replace = False,
          background = False, cancelToken = None, visitEvents = \<lambda>evName. None\<rparr>],
      emitter = createEmitter routerEvents,
      emitted =
        [(''before'', \<lparr>subject = Some (Suc 0), flagsThen =
            [\<lparr>completed = False, cancelled = False, interrupted = False\<rparr>,
             \<lparr>completed = False, cancelled = False, interrupted = False\<rparr>]\<rparr>),
         (''cancel'', \<lparr>subject = Some 0, flagsThen =
            [\<lparr>completed = False, cancelled = True, interrupted = True\<rparr>,
             \<lparr>completed = False, cancelled = False, interrupted = False\<rparr>]\<rparr>),
         (''start'', \<lparr>subject = Some (Suc 0), flagsThen =
            [\<lparr>completed = False, cancelled = True, interrupted = True\<rparr>,
             \<lparr>completed = False, cancelled = False, interrupted = False\<rparr>]\<rparr>),
         (''finish'', \<lparr>subject = Some 0, flagsThen =
            [\<lparr>completed = False, cancelled = True, interrupted = True\<rparr>,
             \<lparr>completed = False, cancelled = False, interrupted = False\<rparr>]\<rparr>),
         (''before'', \<lparr>subject = Some 2, flagsThen =
            [\<lparr>completed = False, cancelled = True, interrupted = True\<rparr>,
             \<lparr>completed = False, cancelled = False, interrupted = False\<rparr>,
             \<lparr>completed = False, cancelled = False, interrupted = False\<rparr>]\<rparr>)],
      unfinished = [], fragmentOptions = \<lambda>n. None,
      transformServerPropertyKey = None, isSSR = False,
      windowHref = ''https://app.test/home'', scrollPositions = [],
      historyBack = 0, redirectedTo = None\<rparr>"
  unfolding startingRouter_def busyRouter_eq
  by (simp add: router_eval runUnfinished_def)

theorem visit_interrupts_active_witness:
  "activeVisit startingRouter = Some 1
   \<and> flagsAt startingRouter 1 = Some (False, False, False)
   \<and> map_option background (visitAt startingRouter 2) = Some False
   \<and> fst (visitStart startingRouter 2 exampleOptions) = None
   \<and> flagsAt (snd (visitStart startingRouter 2 exampleOptions)) 1 = Some (False, True, True)
   \<and> activeVisit (snd (visitStart startingRouter 2 exampleOptions)) = Some 2
   \<and> map fst (emitted (snd (visitStart startingRouter 2 exampleOptions)))
        = [''before'', ''cancel'', ''start'', ''finish'', ''before'', ''cancel'', ''start'']
   \<and> flagsAt (after [CancelResumed 1,
                      Answered 1 \<lparr>href = ''https://app.test/users'', hash = []\<rparr> exampleOptions
                        (Succeeded (Some (examplePage ''https://app.test/users''))),
                      CancelCalled ''v1'' False]
               (snd (visitStart startingRouter 2 exampleOptions))) 1 = Some (False, True, True)"
proof -
  let ?r = "visitStart startingRouter 2 exampleOptions"
  let ?v1 = "\<lparr>completed = False, cancelled = False, interrupted = False,
          visitId = ''v1'', visitHref = ''https://app.test/users'',
          visitHash = [], visitMethod = GET, replace = False,
          background = False, cancelToken = Some False, visitEvents = \<lambda>evName. None\<rparr>"
  let ?v2 = "\<lparr>completed = False, cancelled = False, interrupted = False,
          visitId = ''v2'', visitHref = ''https://app.test/posts'',
          visitHash = [], visitMethod = GET, replace = False,
          background = False, cancelToken = None, visitEvents = \<lambda>evName. None\<rparr>"
  have a: "activeVisit startingRouter = Some 1" by (simp add: startingRouter_eq)
  have v: "visitAt startingRouter 1 = Some ?v1" by (simp add: startingRouter_eq visitAt_def)
  have w: "visitAt startingRouter 2 = Some ?v2" by (simp add: startingRouter_eq visitAt_def)
  have p: "\<not> completed ?v1" "\<not> cancelled ?v1" "\<not> background ?v2" by simp_all
  have st: "fst ?r = None"
    unfolding startingRouter_eq by (simp add: router_eval)
  then have started: "?r = (None, snd ?r)" by (metis prod.collapse)
  from visit_interrupts_active [OF a v p(1,2) w p(3) started]
  have f: "flagsAt (snd ?r) 1 = Some (False, True, True)"
    and act: "activeVisit (snd ?r) = Some 2"
    and e: "\<exists>cancel start.
             emitted (snd ?r) = emitted startingRouter @ [(''cancel'', cancel), (''start'', start)]"
    and l: "\<forall>steps. flagsAt (after steps (snd ?r)) 1 = Some (False, True, True)"
    by blast+
  have m: "map fst (emitted (snd ?r))
      = [''before'', ''cancel'', ''start'', ''finish'', ''before'', ''cancel'', ''start'']"
    using e by (auto simp: startingRouter_eq)
  have q: "flagsAt startingRouter 1 = Some (False, False, False)"
    using v by (simp add: flagsAt_def)
  have b: "map_option background (visitAt startingRouter 2) = Some False"
    using w by simp
  show ?thesis using a q b st f act m l by simp
qed

text \<open>
  Claim C4 as first stated speaks of any pending visit.  A visit \<open>vA\<close> is called and awaits a
  listener of its \<^verbatim>\<open>before\<close> event; it is pending, and it is not the active visit.  A visit
  \<open>vB\<close> is called, passes its \<^verbatim>\<open>before\<close> event and starts: it interrupts the active visit,
  the initial one, and leaves \<open>vA\<close> as it is.  When \<open>vA\<close> then passes its \<^verbatim>\<open>before\<close> event it
  interrupts \<open>vB\<close>, and with the answer to its request it ends completed, neither cancelled
  nor interrupted.
\<close>

definition listeningOptions :: visitOptions where
  "listeningOptions = exampleOptions\<lparr>viaEvents :=
      (\<lambda>evName. if evName = ''before'' then Some (\<lambda>ev. (JUndefined, False)) else None)\<rparr>"

definition calledTwice :: "page router" where
  "calledTwice =
     after [VisitCalled ''vA'' \<lparr>href = ''https://app.test/a'', hash = []\<rparr> GET listeningOptions,
            VisitCalled ''vB'' \<lparr>href = ''https://app.test/b'', hash = []\<rparr> GET exampleOptions]
       exampleRouter"

definition overtakenRouter :: "page router" where
  "overtakenRouter = snd (visitStart calledTwice 2 exampleOptions)"

definition endedRouter :: "page router" where
  "endedRouter =
     after [BeforePassed 1 listeningOptions,
            CancelResumed 0, CancelResumed 2,
            Answered 1 \<lparr>href = ''https://app.test/a'', hash = []\<rparr> listeningOptions
              (Succeeded (Some (examplePage ''https://app.test/a'')))]
       overtakenRouter"

theorem pending_visit_not_interrupted_counterexample:
  "flagsAt calledTwice 1 = Some (False, False, False)
   \<and> map_option background (visitAt calledTwice 1) = Some False
   \<and> map_option background (visitAt calledTwice 2) = Some False
   \<and> fst (visitStart calledTwice 2 exampleOptions) = None
   \<and> map fst (emitted overtakenRouter) = [''before'', ''before'', ''cancel'', ''start'']
   \<and> flagsAt overtakenRouter 1 = Some (False, False, False)
   \<and> flagsAt endedRouter 1 = Some (True, False, False)
   \<and> flagsAt endedRouter 2 = Some (False, True, True)"
  unfolding endedRouter_def overtakenRouter_def calledTwice_def exampleRouter_eq
  by (simp add: router_eval settle_eval listeningOptions_def)

theorem cancelVisit_contract_witness:
  "cancellable busyRouter ''v1'' \<and> \<not> cancellable busyRouter ''v0''
   \<and> cancelVisit busyRouter ''v0'' True = busyRouter
   \<and> map (\<lambda>v. (cancelled v, interrupted v, cancelToken v)) (visits (cancelVisit busyRouter ''v1'' False))
        = [(True, True, None), (True, False, Some True)]
   \<and> map fst (emitted (cancelVisit busyRouter ''v1'' False))
        = [''before'', ''cancel'', ''start'', ''cancel'', ''finish'']"
proof -
  let ?v1 = "\<lparr>completed = False, cancelled = False, interrupted = False,
          visitId = ''v1'', visitHref = ''https://app.test/users'',
          visitHash = [], visitMethod = GET, replace = False,
          background = False, cancelToken = Some False, visitEvents = \<lambda>evName. None\<rparr>"
  have a: "activeVisit busyRouter = Some 1" by (simp add: busyRouter_eq)
  have v: "visitAt busyRouter 1 = Some ?v1" by (simp add: busyRouter_eq visitAt_def)
  have c1: "cancellable busyRouter ''v1''" using a v by (simp add: cancellable_def)
  have c0: "\<not> cancellable busyRouter ''v0''" using a v by (simp add: cancellable_def)
  have n: "cancelVisit busyRouter ''v0'' True = busyRouter"
    using cancelVisit_contract [of busyRouter "''v0''" True] c0 by blast
  have "cancelVisit busyRouter ''v1'' False =
      busyRouter\<lparr>visits := (visits busyRouter)[1 := ?v1\<lparr>completed := False, cancelled := True,
                 interrupted := False,
                 cancelToken := map_option (\<lambda>called. True) (cancelToken ?v1)\<rparr>],
            emitted := emitted busyRouter @
              [(''cancel'', \<lparr>subject = Some 1, flagsThen = map visitFlags.truncate
                   ((visits busyRouter)[1 := ?v1\<lparr>completed := False, cancelled := True,
                      interrupted := False,
                      cancelToken := map_option (\<lambda>called. True) (cancelToken ?v1)\<rparr>])\<rparr>),
               (''finish'', \<lparr>subject = Some 1, flagsThen = map visitFlags.truncate
                   ((visits busyRouter)[1 := ?v1\<lparr>completed := False, cancelled := True,
                      interrupted := False,
                      cancelToken := map_option (\<lambda>called. True) (cancelToken ?v1)\<rparr>])\<rparr>)]\<rparr>"
    using cancelVisit_contract [of busyRouter "''v1''" False] a v by simp
  then have r: "map (\<lambda>v. (cancelled v, interrupted v, cancelToken v)) (visits (cancelVisit busyRouter ''v1'' False))
        = [(True, True, None), (True, False, Some True)]"
    and e: "map fst (emitted (cancelVisit busyRouter ''v1'' False))
        = [''before'', ''cancel'', ''start'', ''cancel'', ''finish'']"
    by (simp_all add: busyRouter_eq)
  show ?thesis using c1 c0 n r e by blast
qed

subsection \<open>Replacing visits and the length of the page stack\<close>

text \<open>
  Claim C5 at a failing input.  The router holds one page, at the browser's location.  A
  visit to that location with \<^verbatim>\<open>replace: true\<close> is answered with an error status and a
  page of the protocol at another location: \<^verbatim>\<open>setPage\<close> is then called without the options
  of the visit, the page is pushed, and the completed visit leaves two pages.
\<close>

theorem replace_visit_error_page_grows_stack:
  "length (pages exampleRouter) = 1
   \<and> map (map_option (\<lambda>p. href (location p))) (pages exampleRouter) = [Some ''https://app.test/home'']
   \<and> length (pages (fst (visit exampleRouter ''v1''
          \<lparr>href = ''https://app.test/home'', hash = []\<rparr> GET
          (exampleOptions\<lparr>viaReplace := True\<rparr>)
          (Failed (FailedWithPage (examplePage ''https://app.test/error'')))))) = 2
   \<and> completed (visits (fst (visit exampleRouter ''v1''
          \<lparr>href = ''https://app.test/home'', hash = []\<rparr> GET
          (exampleOptions\<lparr>viaReplace := True\<rparr>)
          (Failed (FailedWithPage (examplePage ''https://app.test/error''))))) ! 1)"
  unfolding exampleRouter_eq
  by (simp add: router_eval settle_eval)

text \<open>The same page in a successful response replaces the current entry.\<close>

lemma replace_visit_success_keeps_stack_example:
  "length (pages (fst (visit exampleRouter ''v1''
          \<lparr>href = ''https://app.test/home'', hash = []\<rparr> GET
          (exampleOptions\<lparr>viaReplace := True\<rparr>)
          (Succeeded (Some (examplePage ''https://app.test/error'')))))) = 1"
  unfolding exampleRouter_eq
  by (simp add: router_eval settle_eval)

text \<open>The shape of the page stack: its length and the current index.\<close>

definition stackShape :: "'p router \<Rightarrow> nat \<times> nat" where
  "stackShape s = (length (internalPages s), pageIndex s)"

lemma routerEmit_shape [simp]: "stackShape (snd (routerEmit s n about l)) = stackShape s"
  by (simp add: stackShape_def)

lemma createVisit_shape [simp]: "stackShape (fst (createVisit s i t m opts)) = stackShape s"
  by (simp add: stackShape_def createVisit_def)

lemma cancelVisitBegin_shape [simp]: "stackShape (fst (cancelVisitBegin s i b)) = stackShape s"
  by (simp add: cancelVisitBegin_def Let_def stackShape_def routerEmit_def split: option.splits)

lemma cancelVisitEnd_shape [simp]: "stackShape (cancelVisitEnd s r) = stackShape s"
  by (simp add: cancelVisitEnd_def stackShape_def routerEmit_def split: option.splits)

lemma runUnfinished_shape [simp]: "stackShape (runUnfinished s) = stackShape s"
proof -
  have "stackShape (foldl cancelVisitEnd t rs) = stackShape t" for rs and t :: "'a router"
    by (induction rs arbitrary: t) simp_all
  then show ?thesis by (simp add: runUnfinished_def stackShape_def)
qed

lemma finishVisit_shape [simp]: "stackShape (finishVisit s r) = stackShape s"
  by (simp add: finishVisit_def Let_def stackShape_def routerEmit_def split: option.splits)

lemma assignAt_length: "i < length xs \<Longrightarrow> length (assignAt xs i x) = length xs"
  by (simp add: assignAt_def)

lemma replaceState_shape:
  "pageIndex s < length (internalPages s) \<Longrightarrow> stackShape (replaceState s pg u) = stackShape s"
  by (simp add: replaceState_def stackShape_def assignAt_length)

lemma saveScrollPositions_shape:
  "saveScrollPositions s = Inr s' \<Longrightarrow> pageIndex s < length (internalPages s) \<Longrightarrow>
   stackShape s' = stackShape s"
  by (auto simp: saveScrollPositions_def replaceState_shape split: if_splits option.splits)

lemma resetScrollPositions_shape:
  "resetScrollPositions s = Inr s' \<Longrightarrow> pageIndex s < length (internalPages s) \<Longrightarrow>
   stackShape s' = stackShape s"
  using saveScrollPositions_shape [of "s\<lparr>scrollPositions := map (\<lambda>position. (0, 0)) (scrollPositions s)\<rparr>" s']
  by (auto simp: resetScrollPositions_def stackShape_def split: if_splits)

lemma writeBack_shape:
  "pageIndex s < length (internalPages s) \<Longrightarrow> stackShape (writeBack s c) = stackShape s"
  by (simp add: writeBack_def stackShape_def assignAt_length split: option.splits)

lemma afterCommit_shape:
  "pageIndex s < length (internalPages s) \<Longrightarrow> stackShape (snd (afterCommit s i p)) = stackShape s"
  by (auto simp: afterCommit_def dest: resetScrollPositions_shape split: sum.splits)

lemma shape_index: "stackShape s' = stackShape s \<Longrightarrow>
    (pageIndex s' < length (internalPages s')) = (pageIndex s < length (internalPages s))"
  by (simp add: stackShape_def)

lemma setPage_replace_shape:
  assumes "optReplace opts" and "pageIndex s < length (internalPages s)"
  shows "stackShape (snd (setPage s pg opts)) = stackShape s"
proof -
  have w: "stackShape (writeBack s c) = stackShape s" for c
    by (rule writeBack_shape [OF assms(2)])
  have c: "stackShape (commitPage (writeBack s c) m i opts) = stackShape s" for c m i
    using assms(1) replaceState_shape [of "writeBack s c"] w [of c] assms(2)
    by (simp add: commitPage_def shape_index [OF w])
  have a: "stackShape (snd (afterCommit (commitPage (writeBack s c) m i opts) i p)) = stackShape s"
    for c m i p
    using afterCommit_shape [of "commitPage (writeBack s c) m i opts" i p] c [of c m i] assms(2)
    by (simp add: shape_index [OF c])
  show ?thesis
    by (simp add: setPage_def Let_def w a split: sum.splits prod.splits)
qed

lemma interruptActive_shape [simp]: "stackShape (interruptActive s) = stackShape s"
proof -
  have "stackShape (case cancelVisitBegin s x True of
                (s', None) \<Rightarrow> s'
              | (s', Some c) \<Rightarrow> s'\<lparr>unfinished := unfinished s' @ [c]\<rparr>) = stackShape s" for x
    using cancelVisitBegin_shape [of s x True]
    by (auto simp: stackShape_def split: prod.splits option.splits)
  then show ?thesis by (simp add: interruptActive_def split: option.splits)
qed

lemma visitBefore_shape [simp]:
  "stackShape (fst (visitBefore s i t m opts)) = stackShape s"
  by (simp add: visitBefore_def split_beta)

lemma visitStart_shape:
  assumes "pageIndex s < length (internalPages s)"
  shows "stackShape (snd (visitStart s r opts)) = stackShape s"
proof -
  have s3: "stackShape (interruptActive s) = stackShape s" by simp
  have s4: "saveScrollPositions (interruptActive s) = Inr s4 \<Longrightarrow> stackShape s4 = stackShape s" for s4
    using saveScrollPositions_shape [of "interruptActive s" s4] s3 assms
    by (simp only: shape_index [OF s3])
  have s5: "saveScrollPositions (interruptActive s) = Inr s4 \<Longrightarrow>
      stackShape (snd (routerEmit (s4\<lparr>visits := vs, activeVisit := av\<rparr>) ''start'' ab l)) = stackShape s"
    for s4 vs av ab l
    using s4 [of s4] by (simp add: stackShape_def)
  show ?thesis
  proof (cases "visitAt s r")
    case None
    then show ?thesis by (simp add: visitStart_def)
  next
    case (Some v)
    show ?thesis
    proof (cases "background v")
      case True
      then show ?thesis using Some by (simp add: visitStart_def)
    next
      case fore: False
      show ?thesis
      proof (cases "saveScrollPositions (interruptActive s)")
        case (Inl e)
        then show ?thesis using Some fore s3 by (simp add: visitStart_def Let_def)
      next
        case (Inr s4)
        then show ?thesis
          using Some fore s5 [OF Inr] by (simp add: visitStart_def Let_def)
      qed
    qed
  qed
qed

lemma visitSettle_replace_success_shape:
  assumes "viaReplace opts" and "pageIndex s < length (internalPages s)"
  shows "stackShape (visitSettle s r t opts (Succeeded payload)) = stackShape s"
proof -
  have sp: "stackShape (snd (setPage s pg \<lparr>optReplace = viaReplace opts, optPreserveScroll = ps,
        optPreserveURL = pu, optFragmentName = fn\<rparr>)) = stackShape s" for pg ps pu fn
    using assms by (intro setPage_replace_shape) simp_all
  have v: "stackShape (case p of (Some e, s1) \<Rightarrow> f s1 | (None, s1) \<Rightarrow> g s1) = stackShape s"
    if "stackShape (snd p) = stackShape s"
       "\<And>s1. stackShape (f s1) = stackShape s1" "\<And>s1. stackShape (g s1) = stackShape s1"
    for f g and p :: "error option \<times> page router"
    using that by (auto split: prod.splits option.splits)
  show ?thesis
    unfolding visitSettle_def Let_def
    apply (simp only: finishVisit_shape response.case)
    apply (cases "viaBackground opts")
     apply simp
    apply (cases payload)
     apply simp
    apply (simp only: if_False option.case)
    apply (rule v)
      apply (rule sp)
     apply simp
    apply simp
    done
qed

lemma pages_length: "length (pages s) = length (internalPages s)"
  by (simp add: pages_def)

text \<open>
  On the path of a successful response, a visit with \<^verbatim>\<open>replace: true\<close> leaves the length of
  the page stack as it was, whatever page the response carries.
\<close>

lemma replace_visit_success_keeps_stack:
  assumes "viaReplace opts" and "pageIndex s < length (internalPages s)"
  shows "length (pages (fst (visit s i t m opts (Succeeded payload)))) = length (pages s)"
proof -
  let ?b = "visitBefore s i t m opts"
  let ?s1 = "runUnfinished (fst ?b)"
  have b: "stackShape ?s1 = stackShape s" by simp
  have i1: "pageIndex ?s1 < length (internalPages ?s1)"
    using assms(2) by (simp add: shape_index [OF b])
  have c: "stackShape (snd (visitStart ?s1 r opts)) = stackShape s" for r
    using visitStart_shape [OF i1] b by simp
  have r: "stackShape (runUnfinished (snd (visitStart ?s1 r opts))) = stackShape s" for r
    using c by simp
  have "stackShape (visitSettle (runUnfinished (snd (visitStart ?s1 r opts))) x t opts (Succeeded payload))
      = stackShape s" for x r
    using visitSettle_replace_success_shape [OF assms(1), of "runUnfinished (snd (visitStart ?s1 r opts))"]
      r [of r] assms(2)
    by (simp add: shape_index [OF r])
  then have "stackShape (fst (visit s i t m opts (Succeeded payload))) = stackShape s"
    using b c by (auto simp: visit_def split_beta split: option.splits prod.splits)
  then show ?thesis by (simp add: pages_length stackShape_def)
qed


section \<open>Visit data in query strings and forms\<close>

subsection \<open>The URL and query-string libraries, as far as modelled\<close>





















subsection \<open>\<^verbatim>\<open>mergeDataIntoQueryString\<close>\<close>


subsection \<open>Files in visit data and the conversion to form data\<close>









subsection \<open>\<^verbatim>\<open>resolveRoutable\<close>\<close>










subsection \<open>Properties of the resolution of visit data\<close>



















lemma those_map_Some: "those (map (\<lambda>x. Some (f x)) xs) = Some (map f xs)"
  by (induction xs) simp_all

lemma those_cong_Some:
  "\<forall>x \<in> set xs. g x = Some (f x) \<Longrightarrow> those (map g xs) = Some (map f xs)"
  by (induction xs) simp_all


lemma joinWith_concat_singletons:
  "joinWith sep (concat (map (\<lambda>x. [f x]) xs)) = joinWith sep (map f xs)"
  by (simp add: concat_map_singleton)


lemma list_all_mono': "list_all P xs \<Longrightarrow> (\<And>x. P x \<Longrightarrow> Q x) \<Longrightarrow> list_all Q xs"
  by (simp add: list_all_iff)


















section \<open>Page objects and the reads of the router\<close>

text \<open>
  Whether a caller can change a page of the router through what a getter returned depends
  on the identity of objects.  Objects live in a store; a field holds a primitive value or
  a reference to an object; the router's stack holds references to page objects.
\<close>

datatype hvalue = Prim jsvalue | Ref nat

type_synonym jsobject = "(string \<times> hvalue) list"

type_synonym store = "jsobject list"

definition objectAt :: "store \<Rightarrow> nat \<Rightarrow> jsobject" where
  "objectAt h r = (if r < length h then h ! r else [])"

text \<open>An object literal creates a new object.\<close>

definition allocate :: "store \<Rightarrow> jsobject \<Rightarrow> nat \<times> store" where
  "allocate h obj = (length h, h @ [obj])"

text \<open>\<^verbatim>\<open>object.key\<close> and \<^verbatim>\<open>object.key = value\<close>.\<close>

definition readField :: "store \<Rightarrow> nat \<Rightarrow> string \<Rightarrow> hvalue option" where
  "readField h r key = lookup (objectAt h r) key"

definition assignField :: "store \<Rightarrow> nat \<Rightarrow> string \<Rightarrow> hvalue \<Rightarrow> store" where
  "assignField h r key v = (if r < length h then h[r := setEntry key v (h ! r)] else h)"

text \<open>
  The getter \<^verbatim>\<open>pages\<close> on page objects: \<^verbatim>\<open>map\<close> leaves the empty slots of the stack empty and
  calls back for the others in order; each call creates the object
  \<^verbatim>\<open>{ ...clonePage(page), obsolete: index > this.pageIndex }\<close>.  The result is a new array.
\<close>

fun copyPages :: "store \<Rightarrow> nat \<Rightarrow> nat \<Rightarrow> nat option list \<Rightarrow> nat option list \<times> store" where
  "copyPages h current index [] = ([], h)"
| "copyPages h current index (None # rest) =
     (case copyPages h current (Suc index) rest of
        (copies, h') \<Rightarrow> (None # copies, h'))"
| "copyPages h current index (Some r # rest) =
     (case allocate h (setEntry ''obsolete'' (Prim (JBool (index > current))) (objectAt h (clonePage r))) of
        (copy, h1) \<Rightarrow>
          (case copyPages h1 current (Suc index) rest of
             (copies, h') \<Rightarrow> (Some copy # copies, h')))"

definition pageObjects :: "store \<Rightarrow> nat router \<Rightarrow> nat option list \<times> store" where
  "pageObjects h s = copyPages h (pageIndex s) 0 (internalPages s)"

text \<open>A router with one page whose location and properties are objects of their own.\<close>

definition exampleStore :: store where
  "exampleStore =
     [[(''location'', Ref 1), (''properties'', Ref 2), (''visit'', Prim JNull)],
      [(''href'', Prim (JStr ''/home''))],
      [(''title'', Prim (JStr ''Home''))]]"

definition exampleStack :: "nat router" where
  "exampleStack =
     \<lparr>internalPages = [Some 0], pageIndex = 0, activeVisit = None, visits = [],
      emitter = createEmitter routerEvents, emitted = [], unfinished = [],
      fragmentOptions = (\<lambda>regionName. None), transformServerPropertyKey = None,
      isSSR = False, windowHref = ''/home'', scrollPositions = [],
      historyBack = 0, redirectedTo = None\<rparr>"

lemma objectAt_append: "r < length h \<Longrightarrow> objectAt (h @ ext) r = objectAt h r"
  by (simp add: objectAt_def nth_append)

lemma copyPages_spec:
  assumes "copyPages h current index entries = (copies, h')"
    and "\<forall>r. Some r \<in> set entries \<longrightarrow> r < length h"
  shows "length copies = length entries \<and> (\<exists>ext. h' = h @ ext)
    \<and> (\<forall>i. i < length entries \<and> entries ! i = None \<longrightarrow> copies ! i = None)
    \<and> (\<forall>i r. i < length entries \<and> entries ! i = Some r \<longrightarrow>
          (\<exists>copy. copies ! i = Some copy \<and> length h \<le> copy \<and> copy < length h'
             \<and> objectAt h' copy
                 = setEntry ''obsolete'' (Prim (JBool (index + i > current))) (objectAt h r)))"
  using assms
proof (induction h current index entries arbitrary: copies h' rule: copyPages.induct)
  case (1 h current index)
  then show ?case by simp
next
  case (2 h current index rest)
  obtain cs where cs: "copyPages h current (Suc index) rest = (cs, h')" and c: "copies = None # cs"
    using "2.prems"(1) by (auto split: prod.splits)
  have wf: "\<forall>r. Some r \<in> set rest \<longrightarrow> r < length h" using "2.prems"(2) by simp
  note IH = "2.IH" [OF cs wf]
  show ?case
  proof (intro conjI allI impI)
    show "length copies = length (None # rest)" using IH c by simp
    show "\<exists>ext. h' = h @ ext" using IH by simp
  next
    fix i assume "i < length (None # rest) \<and> (None # rest) ! i = None"
    then show "copies ! i = None" using IH c by (cases i) auto
  next
    fix i r assume a: "i < length (None # rest) \<and> (None # rest) ! i = Some r"
    then obtain j where j: "i = Suc j" "j < length rest" "rest ! j = Some r" by (cases i) auto
    then show "\<exists>copy. copies ! i = Some copy \<and> length h \<le> copy \<and> copy < length h'
             \<and> objectAt h' copy
                 = setEntry ''obsolete'' (Prim (JBool (index + i > current))) (objectAt h r)"
      using IH c by simp
  qed
next
  case (3 h current index r0 rest)
  define obj where "obj = setEntry ''obsolete'' (Prim (JBool (index > current))) (objectAt h r0)"
  define h1 where "h1 = h @ [obj]"
  have al: "allocate h (setEntry ''obsolete'' (Prim (JBool (index > current))) (objectAt h (clonePage r0)))
      = (length h, h1)"
    by (simp add: allocate_def clonePage_def h1_def obj_def)
  obtain cs where cs: "copyPages h1 current (Suc index) rest = (cs, h')"
    and c: "copies = Some (length h) # cs"
    using "3.prems"(1) by (auto simp: al split: prod.splits)
  have wf: "\<forall>r. Some r \<in> set rest \<longrightarrow> r < length h1" using "3.prems"(2) by (auto simp: h1_def)
  note IH = "3.IH" [OF al [symmetric] cs wf]
  from IH obtain ext where ext: "h' = h1 @ ext" by blast
  show ?case
  proof (intro conjI allI impI)
    show "length copies = length (Some r0 # rest)" using IH c by simp
    show "\<exists>ext. h' = h @ ext" using ext by (simp add: h1_def)
  next
    fix i assume "i < length (Some r0 # rest) \<and> (Some r0 # rest) ! i = None"
    then show "copies ! i = None" using IH c by (cases i) auto
  next
    fix i r assume a: "i < length (Some r0 # rest) \<and> (Some r0 # rest) ! i = Some r"
    show "\<exists>copy. copies ! i = Some copy \<and> length h \<le> copy \<and> copy < length h'
             \<and> objectAt h' copy
                 = setEntry ''obsolete'' (Prim (JBool (index + i > current))) (objectAt h r)"
    proof (cases i)
      case 0
      then have "r = r0" using a by simp
      then show ?thesis
        using 0 c ext by (simp add: h1_def obj_def objectAt_def nth_append)
    next
      case (Suc j)
      then have j: "j < length rest" "rest ! j = Some r" using a by auto
      then have "Some r \<in> set rest" by (metis nth_mem)
      then have r: "r < length h" using "3.prems"(2) by simp
      from IH j obtain copy where copy: "cs ! j = Some copy" "length h1 \<le> copy" "copy < length h'"
        "objectAt h' copy = setEntry ''obsolete'' (Prim (JBool (Suc index + j > current))) (objectAt h1 r)"
        by blast
      have "objectAt h1 r = objectAt h r" using r by (simp add: h1_def objectAt_append)
      then show ?thesis using copy Suc c by (simp add: h1_def)
    qed
  qed
qed

lemma assignField_other: "r \<noteq> r' \<Longrightarrow> objectAt (assignField h r' key v) r = objectAt h r"
  by (simp add: assignField_def objectAt_def)

text \<open>
  Claim C1, as the code has it.  \<^verbatim>\<open>clonePage\<close> returns its argument, so \<^verbatim>\<open>page\<close> and
  \<^verbatim>\<open>previousPage\<close> return the router's own page objects.  \<^verbatim>\<open>pages\<close> returns a new array of new
  objects, one for each page of the stack: each has the fields of the router's page, holding
  the same values and the same nested objects, and \<^verbatim>\<open>obsolete\<close> set to whether its index is
  behind the page index.  Creating them changes no existing object, and assigning a field of
  one of them changes no object that existed before, so none of the router's.
\<close>

theorem page_reads_copy_one_level:
  assumes stored: "\<forall>r. Some r \<in> set (internalPages s) \<longrightarrow> r < length h"
    and read: "pageObjects h s = (copies, h')"
  shows "currentPage s = internalPage s \<and> previousPage s = internalPreviousPage s
    \<and> length copies = length (internalPages s)
    \<and> (\<forall>r. r < length h \<longrightarrow> objectAt h' r = objectAt h r)
    \<and> (\<forall>i. i < length (internalPages s) \<and> internalPages s ! i = None \<longrightarrow> copies ! i = None)
    \<and> (\<forall>i r. i < length (internalPages s) \<and> internalPages s ! i = Some r \<longrightarrow>
          (\<exists>copy. copies ! i = Some copy \<and> length h \<le> copy \<and> copy < length h'
             \<and> objectAt h' copy
                 = setEntry ''obsolete'' (Prim (JBool (i > pageIndex s))) (objectAt h r)))
    \<and> (\<forall>copy key v r. Some copy \<in> set copies \<and> r < length h \<longrightarrow>
          objectAt (assignField h' copy key v) r = objectAt h r)"
proof -
  note spec = copyPages_spec [OF read [unfolded pageObjects_def] stored]
  from spec obtain ext where ext: "h' = h @ ext" by blast
  have old: "objectAt h' r = objectAt h r" if "r < length h" for r
    using that ext by (simp add: objectAt_append)
  have fresh: "length h \<le> copy" if "Some copy \<in> set copies" for copy
  proof -
    from that obtain i where i: "i < length copies" "copies ! i = Some copy"
      by (auto simp: in_set_conv_nth)
    then have il: "i < length (internalPages s)" using spec by simp
    show ?thesis
    proof (cases "internalPages s ! i")
      case None
      then show ?thesis using spec il i by auto
    next
      case (Some r)
      then obtain c where "copies ! i = Some c" "length h \<le> c" using spec il by blast
      then show ?thesis using i by simp
    qed
  qed
  have frame: "objectAt (assignField h' copy key v) r = objectAt h r"
    if "Some copy \<in> set copies \<and> r < length h" for copy key v r
  proof -
    have "r \<noteq> copy" using fresh [of copy] that by auto
    then show ?thesis using old that by (simp add: assignField_other)
  qed
  show ?thesis
    using spec old frame by (simp add: currentPage_def previousPage_def clonePage_def)
qed

theorem page_reads_copy_one_level_witness:
  "pageObjects exampleStore exampleStack
     = ([Some 3], exampleStore @ [[(''location'', Ref 1), (''properties'', Ref 2),
                                   (''visit'', Prim JNull), (''obsolete'', Prim (JBool False))]])
   \<and> currentPage exampleStack = internalPage exampleStack
   \<and> objectAt (assignField (snd (pageObjects exampleStore exampleStack)) 3 ''properties'' (Prim JNull)) 0
       = objectAt exampleStore 0"
proof -
  have stored: "\<forall>r. Some r \<in> set (internalPages exampleStack) \<longrightarrow> r < length exampleStore"
    by (simp add: exampleStack_def exampleStore_def)
  have read: "pageObjects exampleStore exampleStack
     = ([Some 3], exampleStore @ [[(''location'', Ref 1), (''properties'', Ref 2),
                                   (''visit'', Prim JNull), (''obsolete'', Prim (JBool False))]])"
    by (simp add: pageObjects_def exampleStack_def exampleStore_def allocate_def objectAt_def clonePage_def)
  from page_reads_copy_one_level [OF stored read]
  have a: "currentPage exampleStack = internalPage exampleStack"
    and b: "\<And>copy key v r. Some copy \<in> set [Some (3::nat)] \<and> r < length exampleStore \<Longrightarrow>
          objectAt (assignField (exampleStore @ [[(''location'', Ref 1), (''properties'', Ref 2),
                                   (''visit'', Prim JNull), (''obsolete'', Prim (JBool False))]]) copy key v) r
            = objectAt exampleStore r"
    by blast+
  have "objectAt (assignField (exampleStore @ [[(''location'', Ref 1), (''properties'', Ref 2),
                                   (''visit'', Prim JNull), (''obsolete'', Prim (JBool False))]]) 3 ''properties'' (Prim JNull)) 0
            = objectAt exampleStore 0"
    by (rule b) (simp add: exampleStore_def)
  then show ?thesis using a read by simp
qed

text \<open>
  The claim as stated fails.  With the page read through \<^verbatim>\<open>page\<close>, assigning its field
  \<^verbatim>\<open>properties\<close> changes the router's page; with the page read through \<^verbatim>\<open>pages\<close>, assigning the
  field \<^verbatim>\<open>title\<close> of its \<^verbatim>\<open>properties\<close> changes the properties of the router's page.
\<close>

theorem page_reads_not_deep_counterexample:
  "currentPage exampleStack = Some 0
   \<and> internalPage exampleStack = Some 0
   \<and> objectAt (assignField exampleStore 0 ''properties'' (Prim JNull)) 0 \<noteq> objectAt exampleStore 0
   \<and> fst (pageObjects exampleStore exampleStack) = [Some 3]
   \<and> readField (snd (pageObjects exampleStore exampleStack)) 3 ''properties'' = Some (Ref 2)
   \<and> readField exampleStore 0 ''properties'' = Some (Ref 2)
   \<and> objectAt (assignField (snd (pageObjects exampleStore exampleStack)) 2 ''title'' (Prim (JStr ''changed''))) 2
       \<noteq> objectAt exampleStore 2"
  by (simp add: currentPage_def internalPage_def readAt_def clonePage_def pageObjects_def
      exampleStack_def exampleStore_def allocate_def objectAt_def assignField_def readField_def)

end
